theory Spec2Isabelle
  imports Complex_Main
begin

section \<open>Board model\<close>

text \<open>
  The component \<^verbatim>\<open>src/components/TicTacToe.tsx\<close> keeps a grid as a
  \<^verbatim>\<open>(string | null)[]\<close>.  A cell is \<open>None\<close> for \<^verbatim>\<open>null\<close> and
  \<open>Some s\<close> for the string \<open>s\<close>; the component itself only ever writes
  \<open>''X''\<close> and \<open>''O''\<close>.
\<close>

type_synonym cell = "string option"
type_synonym board = "cell list"

text \<open>JavaScript truthiness of a cell (\<^verbatim>\<open>Boolean(v)\<close>, \<^verbatim>\<open>!v\<close>, \<^verbatim>\<open>v && ...\<close>):
  \<^verbatim>\<open>null\<close> and the empty string are falsy.\<close>

definition truthy :: "cell \<Rightarrow> bool" where
  "truthy v = (case v of None \<Rightarrow> False | Some s \<Rightarrow> s \<noteq> [])"

text \<open>
  Reading \<^verbatim>\<open>squares[i]\<close>.  Past the end JavaScript yields \<^verbatim>\<open>undefined\<close>;
  every reader below only tests the value for truthiness or compares it with a truthy
  string, where \<^verbatim>\<open>undefined\<close> behaves as \<^verbatim>\<open>null\<close> does, so it is
  read as \<open>None\<close>.
\<close>

definition cellAt :: "board \<Rightarrow> nat \<Rightarrow> cell" where
  "cellAt squares i = (if i < length squares then squares ! i else None)"

text \<open>
  Writing \<^verbatim>\<open>squares[i] = v\<close>.  Past the end JavaScript extends the array; the
  holes it leaves below \<open>i\<close> are written as \<open>None\<close>.  A hole reads as
  \<^verbatim>\<open>undefined\<close> but is skipped by \<^verbatim>\<open>map\<close>, \<^verbatim>\<open>every\<close> and
  \<^verbatim>\<open>some\<close>, so the model is exact for \<open>i \<le> length squares\<close> only; the
  squares of the interface and the moves of the bot are indices inside the grid.
\<close>

definition setAt :: "board \<Rightarrow> nat \<Rightarrow> cell \<Rightarrow> board" where
  "setAt squares i v =
     (if i < length squares then squares[i := v]
      else squares @ replicate (i - length squares) None @ [v])"

text \<open>\<^verbatim>\<open>const emptyBoard = Array(9).fill(null)\<close>\<close>

definition emptyBoard :: board where
  "emptyBoard = replicate 9 None"

text \<open>\<^verbatim>\<open>squares.every(Boolean)\<close>\<close>

definition everyBoolean :: "board \<Rightarrow> bool" where
  "everyBoolean squares = list_all truthy squares"

section \<open>Outcome evaluation: \<^verbatim>\<open>calculateWinner\<close>\<close>

type_synonym line = "nat \<times> nat \<times> nat"

text \<open>\<^verbatim>\<open>type WinnerResult = { winner: string; line: number[] } | null\<close>\<close>

type_synonym WinnerResult = "(string \<times> line) option"

definition lines :: "line list" where
  "lines = [(0, 1, 2), (3, 4, 5), (6, 7, 8),
            (0, 3, 6), (1, 4, 7), (2, 5, 8),
            (0, 4, 8), (2, 4, 6)]"

text \<open>The \<^verbatim>\<open>for\<close> loop over \<^verbatim>\<open>lines\<close>, returning at the first hit.\<close>

fun scanLines :: "board \<Rightarrow> line list \<Rightarrow> WinnerResult" where
  "scanLines squares [] = None"
| "scanLines squares ((a, b, c) # rest) =
     (if truthy (cellAt squares a) \<and> cellAt squares a = cellAt squares b \<and> cellAt squares a = cellAt squares c
      then Some (the (cellAt squares a), (a, b, c))
      else scanLines squares rest)"

definition calculateWinner :: "board \<Rightarrow> WinnerResult" where
  "calculateWinner squares = scanLines squares lines"

text \<open>
  The component decides the outcome of a grid in two steps, the same at each of its
  three uses, the status line (lines 86 to 90), the score effect (lines 147 to 150) and
  the leaves of \<^verbatim>\<open>minimax\<close> (lines 46 to 49): the winner that
  \<^verbatim>\<open>calculateWinner\<close> reports, if any; a draw when it reports none and
  \<^verbatim>\<open>squares.every(Boolean)\<close> holds; no outcome yet otherwise.
\<close>

datatype Outcome = Win string line | Draw | Unfinished

definition evaluate :: "board \<Rightarrow> Outcome" where
  "evaluate squares =
     (case calculateWinner squares of
        Some (w, l) \<Rightarrow> Win w l
      | None \<Rightarrow> if everyBoolean squares then Draw else Unfinished)"

section \<open>Random opponent: \<^verbatim>\<open>getRandomMove\<close>\<close>

text \<open>
  \<^verbatim>\<open>squares.map((v, i) => (v === null ? i : null)).filter((v) => v !== null)\<close>:
  the indices of the \<^verbatim>\<open>null\<close> cells, ascending.
\<close>

definition emptyIndices :: "board \<Rightarrow> nat list" where
  "emptyIndices squares =
     map the (filter (\<lambda>v. v \<noteq> None)
       (map (\<lambda>(i, v). if v = None then Some i else None) (enumerate 0 squares)))"

text \<open>
  \<^verbatim>\<open>Math.random()\<close> returns a binary64 number, and so does the product
  \<^verbatim>\<open>Math.random() * empty.length\<close>: it is the exact product rounded to the nearest
  number with a 53-bit significand, ties going to the even significand, which is not
  always the real product (\<^verbatim>\<open>0.8333333333333333 * 6\<close> is \<^verbatim>\<open>5\<close>).  A finite
  binary64 number that is not negative is written by a significand and an exponent,
  standing for \<open>mant * 2 ^ expo\<close>.
\<close>

record double =
  mant :: nat
  expo :: int

definition valueOf :: "double \<Rightarrow> real" where
  "valueOf d = real (mant d) * 2 powr real_of_int (expo d)"

definition isDouble :: "double \<Rightarrow> bool" where
  "isDouble d = (mant d < 2 ^ 53 \<and> - 1074 \<le> expo d \<and> expo d \<le> 971)"

text \<open>The number is below 1 (\<open>belowOne_iff\<close>); \<^verbatim>\<open>Math.random()\<close> returns such
  numbers only.\<close>

definition belowOne :: "double \<Rightarrow> bool" where
  "belowOne d = (mant d = 0 \<or> (expo d < 0 \<and> mant d < 2 ^ nat (- expo d)))"

definition isRandomValue :: "double \<Rightarrow> bool" where
  "isRandomValue u = (isDouble u \<and> belowOne u)"

text \<open>The number of binary digits of a natural number.\<close>

fun bitLength :: "nat \<Rightarrow> nat" where
  "bitLength n = (if n = 0 then 0 else Suc (bitLength (n div 2)))"

declare bitLength.simps [simp del]

text \<open>
  \<^verbatim>\<open>u * n\<close> for an array length \<open>n\<close>, which is a binary64 number as it stands.  The
  exact product is \<open>mant u * n * 2 ^ expo u\<close>.  When \<open>mant u * n\<close> has more than 53
  digits the \<open>s\<close> digits in excess are rounded away: down when they are below one half
  of the last digit kept, up when above, to the even neighbour when equal.  The result
  is the nearest number with a 53-digit significand (\<open>timesLength_nearest\<close>,
  \<open>timesLength_tie_even\<close>, \<open>timesLength_representable\<close>).
\<close>

definition timesLength :: "double \<Rightarrow> nat \<Rightarrow> double" where
  "timesLength u n =
     (let p = mant u * n; s = bitLength p - 53
      in if s = 0 then \<lparr> mant = p, expo = expo u \<rparr>
         else
           let q = p div 2 ^ s; r = p mod 2 ^ s; half = 2 ^ (s - 1)
           in \<lparr> mant = (if r < half \<or> (r = half \<and> even q) then q else q + 1),
                expo = expo u + int s \<rparr>)"

text \<open>\<^verbatim>\<open>Math.floor\<close>, the result read as an array index.\<close>

definition mathFloor :: "double \<Rightarrow> nat" where
  "mathFloor d = (if 0 \<le> expo d then mant d * 2 ^ nat (expo d)
                  else mant d div 2 ^ nat (- expo d))"

text \<open>
  \<^verbatim>\<open>empty[Math.floor(Math.random() * empty.length)]\<close>, with the value \<open>u\<close> of
  \<^verbatim>\<open>Math.random()\<close> passed in.  An index past the end reads \<^verbatim>\<open>undefined\<close>,
  written \<open>None\<close>.
\<close>

definition pickRandom :: "nat list \<Rightarrow> double \<Rightarrow> nat option" where
  "pickRandom cells u =
     (let k = mathFloor (timesLength u (length cells))
      in if k < length cells then Some (cells ! k) else None)"

definition getRandomMove :: "board \<Rightarrow> double \<Rightarrow> nat option" where
  "getRandomMove squares u = pickRandom (emptyIndices squares) u"

section \<open>Optimal opponent: \<^verbatim>\<open>getBestMove\<close>\<close>

text \<open>
  The scores are JavaScript numbers: \<^verbatim>\<open>-Infinity\<close>, \<^verbatim>\<open>Infinity\<close> and the integers
  \<open>- 1\<close>, \<open>0\<close>, \<open>1\<close>; \<open>numberLess a b\<close> is \<^verbatim>\<open>a < b\<close>.
\<close>

datatype number = NegInfinity | Finite int | PosInfinity

fun numberLess :: "number \<Rightarrow> number \<Rightarrow> bool" where
  "numberLess NegInfinity NegInfinity = False"
| "numberLess NegInfinity _ = True"
| "numberLess (Finite x) (Finite y) = (x < y)"
| "numberLess (Finite x) PosInfinity = True"
| "numberLess (Finite x) NegInfinity = False"
| "numberLess PosInfinity _ = False"

text \<open>\<^verbatim>\<open>{ score: number; move: number | null }\<close>\<close>

type_synonym result = "number \<times> nat option"

text \<open>
  One iteration of the loop \<^verbatim>\<open>for (let i = 0; i < 9; i++)\<close> of \<^verbatim>\<open>minimax\<close>.  The
  loop state is the board, which the body writes to and restores, and \<^verbatim>\<open>best\<close>;
  \<open>None\<close> means that a recursive call did not return.  \<open>call\<close> is the recursive call:
  it works on the caller's array, so it returns, next to its result, the array as it
  leaves it, and the body goes on with that array.
\<close>

definition minimaxStep ::
  "(board \<Rightarrow> bool \<Rightarrow> (result \<times> board) option) \<Rightarrow> string \<Rightarrow> string \<Rightarrow> bool
     \<Rightarrow> nat \<Rightarrow> (board \<times> result) option \<Rightarrow> (board \<times> result) option" where
  "minimaxStep call botMark humanMark isMax i state =
     (case state of
        None \<Rightarrow> None
      | Some (board, best) \<Rightarrow>
          if \<not> truthy (cellAt board i) then
            (let placed = setAt board i (Some (if isMax then botMark else humanMark))
             in case call placed (\<not> isMax) of
                  None \<Rightarrow> None
                | Some ((score, _), after) \<Rightarrow>
                    Some (setAt after i None,
                          if isMax
                          then (if numberLess (fst best) score then (score, Some i) else best)
                          else (if numberLess score (fst best) then (score, Some i) else best)))
          else Some (board, best))"

text \<open>
  \<^verbatim>\<open>minimax\<close> recurses without a bound of its own, so the model carries fuel: the
  result is \<open>None\<close> when the fuel runs out.  Ten units suffice on a nine-cell board
  with two non-empty marks (\<open>minimax_refines\<close> below).  The function returns its
  result together with the array as it leaves it.  The loop visits the indices in
  ascending order and writes to every index that reads falsy, so a write past the end
  is a write at the very end and leaves no hole.
\<close>

fun minimax :: "nat \<Rightarrow> string \<Rightarrow> string \<Rightarrow> board \<Rightarrow> bool \<Rightarrow> (result \<times> board) option" where
  "minimax 0 botMark humanMark board isMax = None"
| "minimax (Suc fuel) botMark humanMark board isMax =
     (let result = calculateWinner board
      in if map_option fst result = Some botMark then Some ((Finite 1, None), board)
         else if map_option fst result = Some humanMark then Some ((Finite (- 1), None), board)
         else if everyBoolean board then Some ((Finite 0, None), board)
         else map_option (\<lambda>(board, best). (best, board))
                (fold (minimaxStep (minimax fuel botMark humanMark) botMark humanMark isMax)
                   [0..<9]
                   (Some (board, (if isMax then NegInfinity else PosInfinity, None)))))"

text \<open>
  \<^verbatim>\<open>minimax([...squares], true).move ?? getRandomMove(squares)\<close>: the search works on
  a copy of the grid.  The outer option is \<open>None\<close> when \<^verbatim>\<open>minimax\<close> does not
  return, the inner one is the possibly \<^verbatim>\<open>undefined\<close> result of
  \<^verbatim>\<open>getRandomMove\<close>.
\<close>

definition getBestMove :: "nat \<Rightarrow> board \<Rightarrow> string \<Rightarrow> string \<Rightarrow> double \<Rightarrow> nat option option" where
  "getBestMove fuel squares botMark humanMark u =
     (case minimax fuel botMark humanMark squares True of
        None \<Rightarrow> None
      | Some ((score, move), after) \<Rightarrow>
          Some (case move of Some m \<Rightarrow> Some m | None \<Rightarrow> getRandomMove squares u))"

declare minimax.simps [simp del]

section \<open>The game session\<close>

datatype Mode = Human | Bot
datatype Difficulty = Easy | Hard

record Names =
  nameX :: string
  nameO :: string

record Scores =
  scoreX :: nat
  scoreO :: nat
  scoreDraw :: nat

text \<open>The \<^verbatim>\<open>useState\<close> cells of the component.\<close>

record session =
  history :: "board list"
  step :: nat
  xIsNext :: bool
  mode :: Mode
  difficulty :: Difficulty
  names :: Names
  editingNames :: bool
  scores :: Scores

definition initial :: session where
  "initial = \<lparr> history = [emptyBoard], step = 0, xIsNext = True, mode = Human,
               difficulty = Easy,
               names = \<lparr> nameX = ''Player X'', nameO = ''Player O'' \<rparr>,
               editingNames = False,
               scores = \<lparr> scoreX = 0, scoreO = 0, scoreDraw = 0 \<rparr> \<rparr>"

text \<open>Values derived on every render (lines 79 to 85).  The handlers keep \<open>step\<close>
  a valid index of \<open>history\<close> (\<open>handler_keeps_step_valid\<close> below):
  \<^verbatim>\<open>handleClick\<close> sets it to the last index, the resets to 0, and the interface offers
  \<^verbatim>\<open>jumpTo\<close> only for the indices of \<^verbatim>\<open>history.map\<close>.\<close>

definition squares :: "session \<Rightarrow> board" where
  "squares s = history s ! step s"

definition winnerResult :: "session \<Rightarrow> WinnerResult" where
  "winnerResult s = calculateWinner (squares s)"

text \<open>\<^verbatim>\<open>winnerResult?.winner || null\<close>\<close>

definition winner :: "session \<Rightarrow> string option" where
  "winner s = (case winnerResult s of
                 None \<Rightarrow> None
               | Some (w, l) \<Rightarrow> if w \<noteq> [] then Some w else None)"

definition isLatestStep :: "session \<Rightarrow> bool" where
  "isLatestStep s = (step s = length (history s) - 1)"

definition isBotTurn :: "session \<Rightarrow> bool" where
  "isBotTurn s = (mode s = Bot \<and> isLatestStep s \<and> winner s = None
                  \<and> list_ex (\<lambda>c. c = None) (squares s) \<and> \<not> xIsNext s)"

subsection \<open>Handlers\<close>

definition handleClick :: "nat \<Rightarrow> session \<Rightarrow> session" where
  "handleClick i s =
     (if truthy (cellAt (squares s) i) \<or> winner s \<noteq> None then s
      else
        let nextSquares = setAt (squares s) i (Some (if xIsNext s then ''X'' else ''O''));
            nextHistory = take (step s + 1) (history s) @ [nextSquares]
        in s\<lparr> history := nextHistory,
              step := length nextHistory - 1,
              xIsNext := \<not> xIsNext s \<rparr>)"

definition handleReset :: "session \<Rightarrow> session" where
  "handleReset s = s\<lparr> history := [emptyBoard], step := 0, xIsNext := True \<rparr>"

definition handleModeChange :: "Mode \<Rightarrow> session \<Rightarrow> session" where
  "handleModeChange newMode s =
     s\<lparr> mode := newMode, history := [emptyBoard], step := 0, xIsNext := True \<rparr>"

definition handleDifficultyChange :: "Difficulty \<Rightarrow> session \<Rightarrow> session" where
  "handleDifficultyChange newDiff s = handleReset (s\<lparr> difficulty := newDiff \<rparr>)"

definition jumpTo :: "nat \<Rightarrow> session \<Rightarrow> session" where
  "jumpTo move s = s\<lparr> step := move, xIsNext := (move mod 2 = 0) \<rparr>"

datatype Mark = MarkX | MarkO

definition handleNameChange :: "Mark \<Rightarrow> string \<Rightarrow> session \<Rightarrow> session" where
  "handleNameChange mark v s =
     (case mark of
        MarkX \<Rightarrow> s\<lparr> names := (names s)\<lparr> nameX := v \<rparr> \<rparr>
      | MarkO \<Rightarrow> s\<lparr> names := (names s)\<lparr> nameO := v \<rparr> \<rparr>)"

subsection \<open>Effects\<close>

text \<open>
  The bot-move effect (lines 131 to 143): when \<open>isBotTurn\<close> holds a timer is armed, and
  when it fires \<^verbatim>\<open>makeMove\<close> runs on the state of that render.  \<open>u\<close> is the value
  \<^verbatim>\<open>Math.random()\<close> returns inside \<^verbatim>\<open>makeMove\<close>.  The body never reads
  \<open>difficulty\<close> and never calls \<^verbatim>\<open>getBestMove\<close>.  The branch for an
  \<^verbatim>\<open>undefined\<close> pick is not reached for the numbers that \<^verbatim>\<open>Math.random()\<close>
  returns (\<open>index_in_range\<close>).
\<close>

definition makeMove :: "double \<Rightarrow> session \<Rightarrow> session" where
  "makeMove u s =
     (let cells = emptyIndices (squares s)
      in if length cells = 0 then s
         else (case pickRandom cells u of
                 Some move \<Rightarrow> handleClick move s
               | None \<Rightarrow> s))"

definition botTimer :: "double \<Rightarrow> session \<Rightarrow> session" where
  "botTimer u s = (if isBotTurn s then makeMove u s else s)"

text \<open>
  The moves the bot can submit from a session: the cells \<open>m\<close> such that, for some value
  of \<^verbatim>\<open>Math.random()\<close>, the run of the timer is the click on \<open>m\<close>, and that click
  is accepted.
\<close>

definition botMoves :: "session \<Rightarrow> nat set" where
  "botMoves s =
     {m. \<exists>u. isRandomValue u \<and> botTimer u s = handleClick m s \<and> handleClick m s \<noteq> s}"

text \<open>
  The score-tracking effect (lines 146 to 153).  Its body: \<^verbatim>\<open>[winner]: prev[winner] + 1\<close>
  bumps the X or the O counter; any other key would leave the three counters alone.
\<close>

definition bumpWinner :: "string \<Rightarrow> Scores \<Rightarrow> Scores" where
  "bumpWinner w prev =
     (if w = ''X'' then prev\<lparr> scoreX := scoreX prev + 1 \<rparr>
      else if w = ''O'' then prev\<lparr> scoreO := scoreO prev + 1 \<rparr>
      else prev)"

definition scoreEffect :: "session \<Rightarrow> session" where
  "scoreEffect s =
     (case winner s of
        Some w \<Rightarrow> s\<lparr> scores := bumpWinner w (scores s) \<rparr>
      | None \<Rightarrow>
          if everyBoolean (squares s) \<and> winner s = None
          then s\<lparr> scores := (scores s)\<lparr> scoreDraw := scoreDraw (scores s) + 1 \<rparr> \<rparr>
          else s)"

text \<open>
  React runs an effect after the first render, and after a later render when one of its
  dependencies, here \<^verbatim>\<open>[winner, step]\<close>, differs from the previous render's.  The
  rendered component is the session together with the dependencies last seen
  (\<open>None\<close> before the first render).  The render that follows the effect's own
  \<^verbatim>\<open>setScores\<close> sees the same dependencies and does not run it again.
\<close>

record app =
  cur :: session
  scoreDeps :: "(string option \<times> nat) option"

definition commit :: "app \<Rightarrow> app" where
  "commit a =
     (let deps = (winner (cur a), step (cur a))
      in if scoreDeps a = Some deps then a
         else \<lparr> cur = scoreEffect (cur a), scoreDeps = Some deps \<rparr>)"

definition mount :: app where
  "mount = commit \<lparr> cur = initial, scoreDeps = None \<rparr>"

datatype event =
    Select nat
  | JumpTo nat
  | Reset
  | SetMode Mode
  | SetDifficulty Difficulty
  | RenameMark Mark string
  | BotTimer double

fun handler :: "event \<Rightarrow> session \<Rightarrow> session" where
  "handler (Select i) s = handleClick i s"
| "handler (JumpTo k) s = jumpTo k s"
| "handler Reset s = handleReset s"
| "handler (SetMode m) s = handleModeChange m s"
| "handler (SetDifficulty d) s = handleDifficultyChange d s"
| "handler (RenameMark mark v) s = handleNameChange mark v s"
| "handler (BotTimer u) s = botTimer u s"

text \<open>
  One event: the handler's state updates, one render, then the effects.  Events are
  calls of the handlers; that the interface disables some buttons (an occupied square,
  any square once there is a winner or while the bot is to move, the history button of
  the current step) is not part of the model.
\<close>

definition dispatch :: "app \<Rightarrow> event \<Rightarrow> app" where
  "dispatch a e = commit (a\<lparr> cur := handler e (cur a) \<rparr>)"

definition run :: "event list \<Rightarrow> app" where
  "run es = foldl dispatch mount es"

section \<open>Vocabulary of the specification and sample inputs\<close>

text \<open>
  The specification's words for the evaluator, to be compared with \<open>calculateWinner\<close>:
  a triple wins when its three cells are equal and non-empty; the evaluator reports the
  first winning triple of the fixed order, rows top to bottom, columns left to right,
  then the two diagonals.
\<close>

definition wins :: "board \<Rightarrow> line \<Rightarrow> bool" where
  "wins b l = (case l of (i, j, k) \<Rightarrow>
     truthy (cellAt b i) \<and> cellAt b i = cellAt b j \<and> cellAt b i = cellAt b k)"

definition rowLine :: "nat \<Rightarrow> line" where "rowLine r = (3 * r, 3 * r + 1, 3 * r + 2)"
definition colLine :: "nat \<Rightarrow> line" where "colLine c = (c, c + 3, c + 6)"

definition firstWin :: "board \<Rightarrow> WinnerResult" where
  "firstWin b = (case find (wins b) lines of
                   None \<Rightarrow> None
                 | Some (i, j, k) \<Rightarrow> Some (the (cellAt b i), (i, j, k)))"

text \<open>A full grid without a winning triple.\<close>

definition drawnGrid :: board where
  "drawnGrid = [Some ''X'', Some ''O'', Some ''X'',
                Some ''X'', Some ''O'', Some ''O'',
                Some ''O'', Some ''X'', Some ''X'']"

text \<open>Scenario A of the specification: X takes the top row.\<close>

definition scenarioA :: "event list" where
  "scenarioA = [Select 0, Select 4, Select 1, Select 5, Select 2]"

text \<open>Three moves played, then the view moved back to the grid after the first move.\<close>

definition staleView :: session where
  "staleView = jumpTo 1 (cur (run [Select 0, Select 4, Select 1]))"

text \<open>Binary64 numbers below 1: \<^verbatim>\<open>0.5\<close>, \<^verbatim>\<open>0.125\<close>, \<^verbatim>\<open>0.875\<close> and
  \<^verbatim>\<open>0.8333333333333333\<close>, the greatest one below five sixths.\<close>

definition oneHalf :: double where "oneHalf = \<lparr> mant = 1, expo = - 1 \<rparr>"
definition oneEighth :: double where "oneEighth = \<lparr> mant = 1, expo = - 3 \<rparr>"
definition sevenEighths :: double where "sevenEighths = \<lparr> mant = 7, expo = - 3 \<rparr>"
definition fiveSixths :: double where
  "fiveSixths = \<lparr> mant = 7505999378950826, expo = - 53 \<rparr>"

text \<open>Human-versus-computer mode, the bot to make its second move with six cells
  empty.\<close>

definition botSecondMove :: session where
  "botSecondMove = cur (run [SetMode Bot, Select 0, BotTimer oneHalf, Select 1])"


text \<open>
  The end of a game as the component shows it (line 234): a winner, or a full grid.
\<close>

definition gameOver :: "board \<Rightarrow> bool" where
  "gameOver b = (calculateWinner b \<noteq> None \<or> everyBoolean b)"

text \<open>
  Play from the empty grid in which the human may take any empty cell and the bot
  always moves by \<^verbatim>\<open>getBestMove\<close> (with fuel enough for it to return).  The flag
  tells whether the bot is to move; either side may start.
\<close>

inductive optimalPlay :: "string \<Rightarrow> string \<Rightarrow> board \<Rightarrow> bool \<Rightarrow> bool"
  for botMark humanMark :: string where
  start: "optimalPlay botMark humanMark emptyBoard botFirst"
| humanMove:
    "optimalPlay botMark humanMark b False \<Longrightarrow> \<not> gameOver b \<Longrightarrow> i < 9 \<Longrightarrow> b ! i = None
     \<Longrightarrow> optimalPlay botMark humanMark (setAt b i (Some humanMark)) True"
| botMove:
    "optimalPlay botMark humanMark b True \<Longrightarrow> \<not> gameOver b \<Longrightarrow> 9 < fuel
     \<Longrightarrow> getBestMove fuel b botMark humanMark u = Some (Some m)
     \<Longrightarrow> optimalPlay botMark humanMark (setAt b m (Some botMark)) False"

text \<open>
  A grid of legal alternating play in which O is already lost: X threatens both
  \<open>(0, 3, 6)\<close> and \<open>(2, 4, 6)\<close>.  It is reached by the clicks \<open>lostPlay\<close>.
\<close>

definition lostGrid :: board where
  "lostGrid = [Some ''X'', Some ''O'', None, None, Some ''X'', None, Some ''X'', None, Some ''O'']"

definition lostPlay :: "event list" where
  "lostPlay = [Select 4, Select 1, Select 0, Select 8, Select 6]"

text \<open>
  The grid \<open>lostGrid\<close> in human-versus-computer mode with the difficulty set to hard,
  the bot to move.
\<close>

definition hardLost :: session where
  "hardLost = cur (run [SetMode Bot, SetDifficulty Hard, Select 4, BotTimer oneEighth,
                        Select 0, BotTimer sevenEighths, Select 6])"

section \<open>Game values\<close>

text \<open>
  The two marks of a game are non-empty and distinct; a board of the game has nine cells
  that are empty or hold one of the marks.
\<close>

definition marksOk :: "string \<Rightarrow> string \<Rightarrow> bool" where
  "marksOk botMark humanMark = (botMark \<noteq> [] \<and> humanMark \<noteq> [] \<and> botMark \<noteq> humanMark)"

definition okBoard :: "string \<Rightarrow> string \<Rightarrow> board \<Rightarrow> bool" where
  "okBoard botMark humanMark b =
     (length b = 9 \<and> list_all (\<lambda>c. c = None \<or> c = Some botMark \<or> c = Some humanMark) b)"

definition numEmpty :: "board \<Rightarrow> nat" where
  "numEmpty b = length (filter (\<lambda>c. c = None) b)"

definition winnerIs :: "board \<Rightarrow> string \<Rightarrow> bool" where
  "winnerIs b m = (map_option fst (calculateWinner b) = Some m)"

definition terminalFor :: "string \<Rightarrow> string \<Rightarrow> board \<Rightarrow> bool" where
  "terminalFor botMark humanMark b =
     (winnerIs b botMark \<or> winnerIs b humanMark \<or> everyBoolean b)"

text \<open>
  The value of a grid as the specification describes the search: 1 when the bot's mark
  has won, \<open>- 1\<close> when the human's has, 0 for a full grid, and otherwise the best value
  of the successor grids for the side to move, the bot maximising and the human
  minimising.
\<close>

function gameValue :: "string \<Rightarrow> string \<Rightarrow> board \<Rightarrow> bool \<Rightarrow> int" where
  "gameValue botMark humanMark b isMax =
     (if winnerIs b botMark then 1
      else if winnerIs b humanMark then - 1
      else if everyBoolean b then 0
      else let vals = map (\<lambda>i. gameValue botMark humanMark
                                  (b[i := Some (if isMax then botMark else humanMark)]) (\<not> isMax))
                          (filter (\<lambda>i. b ! i = None) [0..<length b])
           in if isMax then Max (set vals) else Min (set vals))"
  by pat_completeness auto
termination
proof (relation "measure (\<lambda>(botMark, humanMark, b, isMax). numEmpty b)")
  show "wf (measure (\<lambda>(botMark, humanMark, b, isMax). numEmpty b))" by simp
next
  fix botMark humanMark :: string and b :: board and isMax :: bool and x :: nat
  assume "x \<in> set (filter (\<lambda>i. b ! i = None) [0..<length b])"
  then have x: "x < length b" "b ! x = None" by simp_all
  have dec: "numEmpty (c[j := Some m]) < numEmpty c" if "j < length c" "c ! j = None"
    for c :: board and j m
    using that
  proof (induction c arbitrary: j)
    case Nil
    then show ?case by simp
  next
    case (Cons a c)
    show ?case
    proof (cases j)
      case 0
      with Cons.prems show ?thesis by (simp add: numEmpty_def)
    next
      case (Suc k)
      with Cons.prems have "numEmpty (c[k := Some m]) < numEmpty c"
        by (intro Cons.IH) simp_all
      with Suc show ?thesis by (simp add: numEmpty_def)
    qed
  qed
  from dec[OF x]
  show "((botMark, humanMark, b[x := Some (if isMax then botMark else humanMark)], \<not> isMax),
         (botMark, humanMark, b, isMax))
        \<in> measure (\<lambda>(botMark, humanMark, b, isMax). numEmpty b)"
    by simp
qed

declare gameValue.simps [simp del]

text \<open>The update of \<^verbatim>\<open>best\<close> in the loop of \<^verbatim>\<open>minimax\<close>, for known scores.\<close>

definition pick :: "bool \<Rightarrow> (nat \<Rightarrow> int) \<Rightarrow> nat \<Rightarrow> result \<Rightarrow> result" where
  "pick isMax v i best =
     (if isMax then (if numberLess (fst best) (Finite (v i)) then (Finite (v i), Some i) else best)
      else (if numberLess (Finite (v i)) (fst best) then (Finite (v i), Some i) else best))"

text \<open>
  A position records who holds each cell (\<open>Some True\<close> for the bot); \<open>paint\<close> turns
  it into a board.  \<open>canHold n p botToPlay\<close> searches, to depth \<open>n\<close>, for a way of
  play by which the bot avoids a loss.
\<close>

type_synonym position = "bool option list"

definition paint :: "string \<Rightarrow> string \<Rightarrow> position \<Rightarrow> board" where
  "paint botMark humanMark p =
     map (map_option (\<lambda>bot. if bot then botMark else humanMark)) p"

definition owner :: "position \<Rightarrow> nat \<Rightarrow> bool option" where
  "owner p i = (if i < length p then p ! i else None)"

fun lineOwner :: "position \<Rightarrow> line list \<Rightarrow> bool option" where
  "lineOwner p [] = None"
| "lineOwner p ((i, j, k) # rest) =
     (if owner p i \<noteq> None \<and> owner p i = owner p j \<and> owner p i = owner p k
      then owner p i else lineOwner p rest)"

fun anyOf :: "(nat \<Rightarrow> bool) \<Rightarrow> nat list \<Rightarrow> bool" where
  "anyOf f [] = False"
| "anyOf f (x # xs) = (if f x then True else anyOf f xs)"

fun allOf :: "(nat \<Rightarrow> bool) \<Rightarrow> nat list \<Rightarrow> bool" where
  "allOf f [] = True"
| "allOf f (x # xs) = (if f x then allOf f xs else False)"

definition holdAt :: "(position \<Rightarrow> bool \<Rightarrow> bool) \<Rightarrow> bool \<Rightarrow> position \<Rightarrow> nat \<Rightarrow> bool" where
  "holdAt call botToPlay p i =
     (if p ! i = None then call (p[i := Some botToPlay]) (\<not> botToPlay) else \<not> botToPlay)"

fun canHold :: "nat \<Rightarrow> position \<Rightarrow> bool \<Rightarrow> bool" where
  "canHold 0 p botToPlay = False"
| "canHold (Suc n) p botToPlay =
     (case lineOwner p lines of
        Some won \<Rightarrow> won
      | None \<Rightarrow>
          if list_all (\<lambda>c. c \<noteq> None) p then True
          else if botToPlay
          then anyOf (holdAt (canHold n) True p) [4, 0, 2, 6, 8, 1, 3, 5, 7]
          else allOf (holdAt (canHold n) False p) [0, 1, 2, 3, 4, 5, 6, 7, 8])"

section \<open>Properties\<close>

subsection \<open>Auxiliary facts\<close>

lemma calculateWinner_emptyBoard: "calculateWinner emptyBoard = None"
  by (simp add: calculateWinner_def lines_def emptyBoard_def cellAt_def truthy_def)

lemma everyBoolean_emptyBoard: "\<not> everyBoolean emptyBoard"
  by (simp add: everyBoolean_def emptyBoard_def truthy_def list_all_iff)

lemma scoreEffect_fresh:
  "history s = [emptyBoard] \<Longrightarrow> step s = 0 \<Longrightarrow> scoreEffect s = s"
  by (simp add: scoreEffect_def winner_def winnerResult_def squares_def
      calculateWinner_emptyBoard everyBoolean_emptyBoard)

lemma scanLines_find:
  "scanLines b ls = (case find (wins b) ls of
                   None \<Rightarrow> None
                 | Some (i, j, k) \<Rightarrow> Some (the (cellAt b i), (i, j, k)))"
proof (induction b ls rule: scanLines.induct)
  case (1 squares)
  show ?case by simp
next
  case (2 squares a b c rest)
  have w: "(truthy (cellAt squares a) \<and> cellAt squares a = cellAt squares b
            \<and> cellAt squares a = cellAt squares c) = wins squares (a, b, c)"
    by (simp add: wins_def)
  have s: "scanLines squares ((a, b, c) # rest) =
      (if wins squares (a, b, c) then Some (the (cellAt squares a), (a, b, c))
       else scanLines squares rest)"
    by (simp only: scanLines.simps w)
  show ?case
  proof (cases "wins squares (a, b, c)")
    case True
    then show ?thesis by (simp only: s find.simps if_True option.case prod.case)
  next
    case False
    then have nw: "\<not> (truthy (cellAt squares a) \<and> cellAt squares a = cellAt squares b
            \<and> cellAt squares a = cellAt squares c)"
      by (simp only: w not_False_eq_True)
    from False 2[OF nw] show ?thesis by (simp only: s find.simps if_False)
  qed
qed

lemma lines_order:
  "lines = map rowLine [0, 1, 2] @ map colLine [0, 1, 2] @ [(0, 4, 8), (2, 4, 6)]"
  by (simp add: lines_def rowLine_def colLine_def)

lemma squares_jumpTo: "squares (jumpTo k s) = history s ! k"
  by (simp add: squares_def jumpTo_def)

lemma keep_indices:
  "map the (filter (\<lambda>v. v \<noteq> None) (map (\<lambda>i. if P i then Some i else None) xs)) = filter P xs"
  by (induction xs) simp_all

lemma emptyIndices_eq: "emptyIndices b = filter (\<lambda>i. b ! i = None) [0..<length b]"
proof -
  have z: "zip [0..<length b] b = map (\<lambda>i. (i, b ! i)) [0..<length b]"
    by (rule nth_equalityI) simp_all
  have m: "map (\<lambda>(i, v). if v = None then Some i else None) (map (\<lambda>i. (i, b ! i)) [0..<length b])
      = map (\<lambda>i. if b ! i = None then Some i else None) [0..<length b]"
    by simp
  show ?thesis
    by (simp only: emptyIndices_def enumerate_eq_zip add_0 z m keep_indices)
qed

subsection \<open>The binary64 product and the random pick\<close>

lemma bitLength_upper: "n < 2 ^ bitLength n"
proof (induction n rule: bitLength.induct)
  case (1 n)
  show ?case
  proof (cases "n = 0")
    case True
    then show ?thesis by (simp add: bitLength.simps)
  next
    case False
    from 1[OF False] have "n div 2 < 2 ^ bitLength (n div 2)" .
    then have "n < 2 * 2 ^ bitLength (n div 2)" by linarith
    with False show ?thesis by (subst bitLength.simps) simp
  qed
qed

lemma bitLength_lower: "n \<noteq> 0 \<Longrightarrow> 2 ^ (bitLength n - 1) \<le> n"
proof (induction n rule: bitLength.induct)
  case (1 n)
  from 1(2) have nz: "n \<noteq> 0" .
  show ?case
  proof (cases "n div 2 = 0")
    case True
    then have "bitLength (n div 2) = 0" by (simp add: bitLength.simps)
    with nz have "bitLength n = 1" by (subst bitLength.simps) simp
    with nz show ?thesis by simp
  next
    case False
    from 1(1)[OF nz False] have h: "2 ^ (bitLength (n div 2) - 1) \<le> n div 2" .
    have b: "bitLength n = Suc (bitLength (n div 2))" using nz by (subst bitLength.simps) simp
    have p: "bitLength (n div 2) \<noteq> 0" using False by (subst bitLength.simps) simp
    then have "(2::nat) ^ (bitLength n - 1) = 2 * 2 ^ (bitLength (n div 2) - 1)"
      unfolding b by (cases "bitLength (n div 2)") simp_all
    with h show ?thesis by linarith
  qed
qed

lemma bitLength_numeral:
  "bitLength 0 = 0"
  "bitLength 1 = 1"
  "bitLength (Suc 0) = 1"
  "bitLength (numeral (Num.Bit0 k)) = Suc (bitLength (numeral k))"
  "bitLength (numeral (Num.Bit1 k)) = Suc (bitLength (numeral k))"
proof -
  show "bitLength 0 = 0" by (simp add: bitLength.simps)
  show "bitLength (Suc 0) = 1" by (simp add: bitLength.simps)
  then show "bitLength 1 = 1" by simp
  have e0: "numeral (Num.Bit0 k) div 2 = (numeral k :: nat)"
    by (simp add: numeral_Bit0_div_2)
  have e1: "numeral (Num.Bit1 k) div 2 = (numeral k :: nat)"
    by (simp add: numeral_Bit1_div_2)
  show "bitLength (numeral (Num.Bit0 k)) = Suc (bitLength (numeral k))"
    by (subst bitLength.simps) (simp only: e0 numeral_neq_zero if_False)
  show "bitLength (numeral (Num.Bit1 k)) = Suc (bitLength (numeral k))"
    by (subst bitLength.simps) (simp only: e1 numeral_neq_zero if_False)
qed

text \<open>
  Three products as binary64 arithmetic gives them: \<^verbatim>\<open>0.8333333333333333 * 6\<close> and
  \<^verbatim>\<open>0.3333333333333333 * 3\<close> are ties and go to the even neighbours \<^verbatim>\<open>5\<close> and
  \<^verbatim>\<open>1\<close>; \<^verbatim>\<open>0.6 * 5\<close> lies above the middle and rounds up to \<^verbatim>\<open>3\<close>.
\<close>

lemma timesLength_samples:
  "timesLength fiveSixths 6 = \<lparr> mant = 5 * 2 ^ 50, expo = - 50 \<rparr>"
  "mathFloor (timesLength fiveSixths 6) = 5"
  "timesLength \<lparr> mant = 5404319552844595, expo = - 53 \<rparr> 5 = \<lparr> mant = 3 * 2 ^ 51, expo = - 51 \<rparr>"
  "mathFloor (timesLength \<lparr> mant = 5404319552844595, expo = - 53 \<rparr> 5) = 3"
  "timesLength \<lparr> mant = 6004799503160661, expo = - 54 \<rparr> 3 = \<lparr> mant = 2 ^ 53, expo = - 53 \<rparr>"
  "mathFloor (timesLength \<lparr> mant = 6004799503160661, expo = - 54 \<rparr> 3) = 1"
  by (simp_all add: mathFloor_def timesLength_def fiveSixths_def bitLength_numeral Let_def)

lemma rounded_le:
  fixes p :: nat
  assumes "0 < s"
  shows "(if p mod 2 ^ s < 2 ^ (s - 1) \<or> (p mod 2 ^ s = 2 ^ (s - 1) \<and> even (p div 2 ^ s))
          then p div 2 ^ s else p div 2 ^ s + 1) * 2 ^ s \<le> p + 2 ^ (s - 1)" (is "?R * _ \<le> _")
proof -
  have d: "(p div 2 ^ s) * 2 ^ s + p mod 2 ^ s = p" by (rule div_mult_mod_eq)
  have h: "(2::nat) ^ s = 2 * 2 ^ (s - 1)" using assms by (cases s) simp_all
  show ?thesis
  proof (cases "p mod 2 ^ s < 2 ^ (s - 1) \<or> (p mod 2 ^ s = 2 ^ (s - 1) \<and> even (p div 2 ^ s))")
    case True
    then have r: "?R = p div 2 ^ s" by (simp only: if_True)
    have "(p div 2 ^ s) * 2 ^ s \<le> p" using d by linarith
    then have "(p div 2 ^ s) * 2 ^ s \<le> p + 2 ^ (s - 1)" by linarith
    then show ?thesis unfolding r .
  next
    case False
    then have r: "?R = p div 2 ^ s + 1" by (simp only: if_False)
    from False have "2 ^ (s - 1) \<le> p mod 2 ^ s" by linarith
    with d h have "(p div 2 ^ s + 1) * 2 ^ s \<le> p + 2 ^ (s - 1)"
      by (simp add: algebra_simps)
    then show ?thesis unfolding r .
  qed
qed

text \<open>The rounded product of a number below 1 and \<open>n\<close> stays below \<open>n\<close>, although it
  may exceed the real product.\<close>

lemma index_in_range:
  assumes "isRandomValue u" and "0 < n"
  shows "mathFloor (timesLength u n) < n"
proof (cases "mant u = 0")
  case True
  then show ?thesis using assms(2)
    by (simp add: timesLength_def mathFloor_def bitLength_numeral Let_def)
next
  case False
  define m where "m = mant u"
  define k where "k = nat (- expo u)"
  define p where "p = m * n"
  define s where "s = bitLength p - 53"
  from assms(1) False have e: "expo u < 0" and mk: "m < 2 ^ k" and m53: "m < 2 ^ 53"
    by (simp_all add: isRandomValue_def isDouble_def belowOne_def m_def k_def)
  have ek: "expo u = - int k" using e by (simp add: k_def)
  have pn: "p + n \<le> 2 ^ k * n"
  proof -
    have "Suc m \<le> 2 ^ k" using mk by simp
    then have "Suc m * n \<le> 2 ^ k * n" by (rule mult_le_mono1)
    then show ?thesis by (simp add: p_def)
  qed
  show ?thesis
  proof (cases "s = 0")
    case True
    then have t: "timesLength u n = \<lparr> mant = p, expo = expo u \<rparr>"
      by (simp add: timesLength_def Let_def p_def m_def s_def)
    have "p < n * 2 ^ k" using pn assms(2) by (simp add: mult.commute)
    then have "p div 2 ^ k < n" by (simp add: div_less_iff_less_mult)
    then show ?thesis using e by (simp add: t mathFloor_def k_def)
  next
    case False
    then have s0: "0 < s" by simp
    define R where "R = (if p mod 2 ^ s < 2 ^ (s - 1) \<or> (p mod 2 ^ s = 2 ^ (s - 1) \<and> even (p div 2 ^ s))
          then p div 2 ^ s else p div 2 ^ s + 1)"
    have t: "timesLength u n = \<lparr> mant = R, expo = expo u + int s \<rparr>"
      using False by (simp add: timesLength_def Let_def p_def m_def s_def R_def)
    have Rle: "R * 2 ^ s \<le> p + 2 ^ (s - 1)" unfolding R_def by (rule rounded_le[OF s0])
    have pz: "p \<noteq> 0"
    proof
      assume "p = 0"
      then have "s = 0" by (simp add: s_def bitLength_numeral)
      with s0 show False by simp
    qed
    have bl: "bitLength p = 53 + s" using s0 by (simp add: s_def)
    from bitLength_lower[OF pz] have "2 ^ (52 + s) \<le> p" by (simp add: bl)
    also have "p < 2 ^ 53 * n" using m53 assms(2) by (simp add: p_def)
    finally have "(2::nat) ^ 53 * 2 ^ (s - 1) < 2 ^ 53 * n"
      using s0 by (cases s) (simp_all add: power_add)
    then have hn: "2 ^ (s - 1) < n" by simp
    from Rle hn pn have lt: "R * 2 ^ s < n * 2 ^ k" by (simp add: mult.commute)
    show ?thesis
    proof (cases "k \<le> s")
      case True
      then have ex: "expo u + int s = int (s - k)" by (simp add: ek)
      have "R * 2 ^ (s - k) * 2 ^ k < n * 2 ^ k"
        using lt True by (simp add: mult.assoc power_add[symmetric])
      then have "R * 2 ^ (s - k) < n" by simp
      then show ?thesis by (simp add: t mathFloor_def ex)
    next
      case False
      then have ng: "\<not> 0 \<le> expo u + int s" by (simp add: ek)
      have nn: "nat (- (expo u + int s)) = k - s" using False by (simp add: ek)
      have "n * 2 ^ k = n * 2 ^ (k - s) * 2 ^ s"
        using False by (simp add: mult.assoc power_add[symmetric])
      with lt have "R < n * 2 ^ (k - s)" by simp
      then have "R div 2 ^ (k - s) < n" by (simp add: div_less_iff_less_mult)
      then show ?thesis using nn ng by (simp add: t mathFloor_def)
    qed
  qed
qed

lemma two_powr_neg: "2 powr (- real k) = 1 / 2 ^ k"
  by (simp add: powr_minus powr_realpow inverse_eq_divide)

lemma two_powr_int_nonneg: "0 \<le> e \<Longrightarrow> 2 powr real_of_int e = 2 ^ nat e"
  by (metis of_int_of_nat_eq of_nat_nat powr_realpow zero_less_numeral)

lemma two_powr_int_neg: "e < 0 \<Longrightarrow> 2 powr real_of_int e = 1 / 2 ^ nat (- e)"
proof -
  assume "e < 0"
  then have "real_of_int e = - real (nat (- e))" by simp
  then show ?thesis by (simp only: two_powr_neg)
qed

lemma belowOne_iff: "belowOne d \<longleftrightarrow> valueOf d < 1"
proof (cases "mant d = 0")
  case True
  then show ?thesis by (simp add: belowOne_def valueOf_def)
next
  case False
  then have m: "1 \<le> real (mant d)" by simp
  show ?thesis
  proof (cases "expo d < 0")
    case True
    have "valueOf d = real (mant d) / 2 ^ nat (- expo d)"
      by (simp add: valueOf_def two_powr_int_neg[OF True])
    also have "\<dots> < 1 \<longleftrightarrow> real (mant d) < 2 ^ nat (- expo d)" by simp
    also have "\<dots> \<longleftrightarrow> mant d < 2 ^ nat (- expo d)"
      by (metis of_nat_less_iff of_nat_numeral of_nat_power)
    finally show ?thesis using True False by (simp add: belowOne_def)
  next
    case False
    then have "(1::real) \<le> 2 ^ nat (expo d)" by simp
    with m have "1 * 1 \<le> real (mant d) * 2 ^ nat (expo d)" by (intro mult_mono) simp_all
    then have "1 \<le> valueOf d" using False by (simp add: valueOf_def two_powr_int_nonneg)
    then show ?thesis using False \<open>mant d \<noteq> 0\<close> by (simp add: belowOne_def)
  qed
qed

lemma no_value_between:
  fixes m' q s :: nat and j :: int
  assumes "m' < 2 ^ 53" and "2 ^ 52 \<le> q" and "real q * 2 ^ s < real m' * 2 powr real_of_int j"
  shows "real (q + 1) * 2 ^ s \<le> real m' * 2 powr real_of_int j"
proof -
  have c: "(0::real) < 2 powr real_of_int j" by simp
  have "(2::real) ^ 52 * 2 ^ s \<le> real q * 2 ^ s"
  proof -
    have "real ((2::nat) ^ 52) \<le> real q" using assms(2) by (simp only: of_nat_le_iff)
    then show ?thesis by simp
  qed
  also note assms(3)
  also have "real m' * 2 powr real_of_int j < 2 ^ 53 * 2 powr real_of_int j"
  proof -
    have "real m' < real ((2::nat) ^ 53)" using assms(1) by (simp only: of_nat_less_iff)
    then show ?thesis using c by simp
  qed
  finally have "(2::real) ^ (52 + s) < 2 ^ 53 * 2 powr real_of_int j" by (simp add: power_add)
  then have "(2::real) powr real (52 + s) < 2 powr real 53 * 2 powr real_of_int j"
    by (simp only: powr_realpow zero_less_numeral)
  then have "(2::real) powr real (52 + s) < 2 powr (real 53 + real_of_int j)"
    by (simp only: powr_add)
  then have "real (52 + s) < real 53 + real_of_int j" by simp
  then have sj: "int s \<le> j" by linarith
  define t where "t = nat (j - int s)"
  have "real_of_int j = real t + real s" using sj by (simp add: t_def)
  then have pj: "2 powr real_of_int j = 2 ^ t * 2 ^ s"
    by (simp add: powr_add powr_realpow)
  from assms(3) have "real q * 2 ^ s < real (m' * 2 ^ t) * 2 ^ s" by (simp add: pj)
  then have "real q < real (m' * 2 ^ t)" by simp
  then have "q < m' * 2 ^ t" by (simp only: of_nat_less_iff)
  then have "q + 1 \<le> m' * 2 ^ t" by simp
  then have "real (q + 1) \<le> real (m' * 2 ^ t)" by (simp only: of_nat_le_iff)
  then have "real (q + 1) * 2 ^ s \<le> real (m' * 2 ^ t) * 2 ^ s" by simp
  then show ?thesis by (simp add: pj)
qed

lemma timesLength_exact:
  assumes "bitLength (mant u * n) \<le> 53"
  shows "valueOf (timesLength u n) = valueOf u * real n"
  using assms by (simp add: timesLength_def valueOf_def Let_def)

lemma timesLength_nearest:
  assumes "mant d < 2 ^ 53"
  shows "\<bar>valueOf (timesLength u n) - valueOf u * real n\<bar> \<le> \<bar>valueOf d - valueOf u * real n\<bar>"
proof (cases "bitLength (mant u * n) \<le> 53")
  case True
  then show ?thesis by (simp add: timesLength_exact)
next
  case False
  define p where "p = mant u * n"
  define s where "s = bitLength p - 53"
  define q where "q = p div 2 ^ s"
  define r where "r = p mod 2 ^ s"
  define R where "R = (if r < 2 ^ (s - 1) \<or> (r = 2 ^ (s - 1) \<and> even q) then q else q + 1)"
  define c :: real where "c = 2 powr real_of_int (expo u)"
  define y :: real where "y = real (mant d) * 2 powr real_of_int (expo d - expo u)"
  from False have s0: "0 < s" and bl: "bitLength p = 53 + s" by (simp_all add: s_def p_def)
  have c0: "0 < c" by (simp add: c_def)
  have t: "timesLength u n = \<lparr> mant = R, expo = expo u + int s \<rparr>"
    using s0 by (simp add: timesLength_def Let_def p_def s_def R_def q_def r_def)
  have vr: "valueOf (timesLength u n) = real (R * 2 ^ s) * c"
    by (simp add: t valueOf_def c_def powr_add powr_realpow)
  have vx: "valueOf u * real n = real p * c" by (simp add: valueOf_def c_def p_def)
  have vd: "valueOf d = y * c"
    by (simp add: valueOf_def y_def c_def powr_add[symmetric])
  have pz: "p \<noteq> 0"
  proof
    assume "p = 0"
    then have "s = 0" by (simp add: s_def bitLength_numeral)
    with s0 show False by simp
  qed
  from bitLength_lower[OF pz] have pl: "2 ^ 52 * 2 ^ s \<le> p" by (simp add: bl power_add)
  have q52: "2 ^ 52 \<le> q"
  proof -
    have "(2 ^ 52 * 2 ^ s) div 2 ^ s \<le> p div 2 ^ s" by (rule div_le_mono[OF pl])
    then show ?thesis by (simp add: q_def)
  qed
  have d: "q * 2 ^ s + r = p" unfolding q_def r_def by (rule div_mult_mod_eq)
  have rl: "r < 2 ^ s" by (simp add: r_def)
  have h: "(2::nat) ^ s = 2 * 2 ^ (s - 1)" using s0 by (cases s) simp_all
  have gap: "y \<le> real (q * 2 ^ s) \<or> real ((q + 1) * 2 ^ s) \<le> y"
  proof (cases "real q * 2 ^ s < y")
    case True
    from no_value_between[OF assms q52 True[unfolded y_def]]
    have "real (q + 1) * 2 ^ s \<le> y" unfolding y_def .
    then have "real ((q + 1) * 2 ^ s) \<le> y" by (simp only: of_nat_mult of_nat_power of_nat_numeral)
    then show ?thesis by (rule disjI2)
  next
    case False
    then have "y \<le> real q * 2 ^ s" by simp
    then have "y \<le> real (q * 2 ^ s)" by (simp only: of_nat_mult of_nat_power of_nat_numeral)
    then show ?thesis by (rule disjI1)
  qed
  have near: "\<bar>real (R * 2 ^ s) - real p\<bar> \<le> \<bar>y - real p\<bar>"
  proof (cases "r < 2 ^ (s - 1) \<or> (r = 2 ^ (s - 1) \<and> even q)")
    case True
    then have R: "R = q" by (simp add: R_def)
    from True h have r2: "2 * r \<le> 2 ^ s" by linarith
    have lo: "real p - real (q * 2 ^ s) = real r" using d by (simp add: of_nat_add[symmetric] del: of_nat_add of_nat_mult)
    have hi: "real ((q + 1) * 2 ^ s) - real p = real (2 ^ s - r)"
    proof -
      have "(q + 1) * 2 ^ s = p + (2 ^ s - r)" using d rl by (simp add: algebra_simps)
      then have "real ((q + 1) * 2 ^ s) = real p + real (2 ^ s - r)" by (simp only: of_nat_add)
      then show ?thesis by simp
    qed
    have rr: "real r \<le> real (2 ^ s - r)" using r2 rl by (simp only: of_nat_le_iff)
    from gap show ?thesis
    proof
      assume "y \<le> real (q * 2 ^ s)"
      then show ?thesis unfolding R using lo by linarith
    next
      assume "real ((q + 1) * 2 ^ s) \<le> y"
      then show ?thesis unfolding R using lo hi rr by linarith
    qed
  next
    case False
    then have R: "R = q + 1" by (simp add: R_def)
    from False h have r2: "2 ^ s \<le> 2 * r" by linarith
    have lo: "real p - real (q * 2 ^ s) = real r" using d by (simp add: of_nat_add[symmetric] del: of_nat_add of_nat_mult)
    have hi: "real ((q + 1) * 2 ^ s) - real p = real (2 ^ s - r)"
    proof -
      have "(q + 1) * 2 ^ s = p + (2 ^ s - r)" using d rl by (simp add: algebra_simps)
      then have "real ((q + 1) * 2 ^ s) = real p + real (2 ^ s - r)" by (simp only: of_nat_add)
      then show ?thesis by simp
    qed
    have rr: "real (2 ^ s - r) \<le> real r" using r2 rl by (simp only: of_nat_le_iff)
    from gap show ?thesis
    proof
      assume "y \<le> real (q * 2 ^ s)"
      then show ?thesis unfolding R using lo hi rr by linarith
    next
      assume "real ((q + 1) * 2 ^ s) \<le> y"
      then show ?thesis unfolding R using hi by linarith
    qed
  qed
  have "\<bar>valueOf (timesLength u n) - valueOf u * real n\<bar> = \<bar>real (R * 2 ^ s) - real p\<bar> * c"
    using c0 by (simp add: vr vx left_diff_distrib[symmetric] abs_mult del: of_nat_mult)
  also have "\<dots> \<le> \<bar>y - real p\<bar> * c" using near c0 by simp
  also have "\<dots> = \<bar>valueOf d - valueOf u * real n\<bar>"
    using c0 by (simp add: vd vx left_diff_distrib[symmetric] abs_mult)
  finally show ?thesis .
qed

lemma timesLength_tie_even:
  assumes "53 < bitLength (mant u * n)"
    and "(mant u * n) mod 2 ^ (bitLength (mant u * n) - 53) = 2 ^ (bitLength (mant u * n) - 54)"
  shows "even (mant (timesLength u n))"
  using assms by (simp add: timesLength_def Let_def)

lemma mathFloor_eq: "int (mathFloor d) = \<lfloor>valueOf d\<rfloor>"
proof (cases "0 \<le> expo d")
  case True
  have "valueOf d = real (mant d * 2 ^ nat (expo d))"
    by (simp add: valueOf_def two_powr_int_nonneg[OF True])
  then have "\<lfloor>valueOf d\<rfloor> = int (mant d * 2 ^ nat (expo d))" by (simp only: floor_of_nat)
  then show ?thesis using True by (simp add: mathFloor_def)
next
  case False
  then have n: "expo d < 0" by simp
  have "valueOf d = real (mant d) / real ((2::nat) ^ nat (- expo d))"
    by (simp add: valueOf_def two_powr_int_neg[OF n])
  then have "\<lfloor>valueOf d\<rfloor> = int (mant d div 2 ^ nat (- expo d))"
    by (simp only: floor_divide_of_nat_eq)
  then show ?thesis using False by (simp add: mathFloor_def)
qed

lemma timesLength_representable:
  "\<exists>d. mant d < 2 ^ 53 \<and> expo u \<le> expo d \<and> valueOf d = valueOf (timesLength u n)"
proof (cases "bitLength (mant u * n) \<le> 53")
  case True
  have "mant u * n < 2 ^ bitLength (mant u * n)" by (rule bitLength_upper)
  also have "\<dots> \<le> 2 ^ 53" using True by (rule power_increasing) simp
  finally have "mant (timesLength u n) < 2 ^ 53" using True
    by (simp add: timesLength_def Let_def)
  moreover have "expo u \<le> expo (timesLength u n)" by (simp add: timesLength_def Let_def)
  ultimately show ?thesis by blast
next
  case False
  define p where "p = mant u * n"
  define s where "s = bitLength p - 53"
  define R where "R = mant (timesLength u n)"
  from False have s0: "0 < s" and bl: "bitLength p = 53 + s" by (simp_all add: s_def p_def)
  have e: "expo (timesLength u n) = expo u + int s"
    using s0 by (simp add: timesLength_def Let_def p_def s_def)
  have "p < 2 ^ bitLength p" by (rule bitLength_upper)
  then have "p < 2 ^ 53 * 2 ^ s" by (simp add: bl power_add)
  then have q: "p div 2 ^ s < 2 ^ 53" by (simp add: div_less_iff_less_mult)
  have "R = p div 2 ^ s \<or> R = p div 2 ^ s + 1"
    using s0 by (simp add: R_def timesLength_def Let_def p_def s_def)
  with q have "R < 2 ^ 53 \<or> R = 2 ^ 53" by linarith
  then show ?thesis
  proof
    assume "R < 2 ^ 53"
    then have "mant (timesLength u n) < 2 ^ 53" by (simp add: R_def)
    moreover have "expo u \<le> expo (timesLength u n)" by (simp add: e)
    ultimately show ?thesis by blast
  next
    assume r: "R = 2 ^ 53"
    let ?d = "\<lparr> mant = 2 ^ 52, expo = expo u + int s + 1 \<rparr>"
    have "valueOf ?d = valueOf (timesLength u n)"
      using r by (simp add: valueOf_def e R_def[symmetric] powr_add)
    moreover have "mant ?d < 2 ^ 53" by simp
    moreover have "expo u \<le> expo ?d" by simp
    ultimately show ?thesis by blast
  qed
qed

lemma pickRandom_in:
  assumes "isRandomValue u" "cells \<noteq> []"
  shows "\<exists>m. pickRandom cells u = Some m \<and> m \<in> set cells"
proof -
  have "0 < length cells" using assms(2) by simp
  from index_in_range[OF assms(1) this]
  show ?thesis by (simp add: pickRandom_def Let_def)
qed

lemma pickRandom_Some: "pickRandom cells u = Some m \<Longrightarrow> m \<in> set cells"
  by (auto simp: pickRandom_def Let_def split: if_splits)

text \<open>Every cell of a list of fewer than \<open>2 ^ 26\<close> cells is picked for some value of
  \<^verbatim>\<open>Math.random()\<close>.\<close>

lemma pickRandom_all:
  assumes "m \<in> set cells" and "length cells < 2 ^ 26"
  shows "\<exists>u. isRandomValue u \<and> pickRandom cells u = Some m"
proof -
  from assms(1) obtain k where k: "k < length cells" "cells ! k = m"
    by (auto simp: in_set_conv_nth)
  define n where "n = length cells"
  define j where "j = bitLength n"
  define c where "c = (k * 2 ^ j + (n - 1)) div n"
  define u where "u = \<lparr> mant = c, expo = - int j \<rparr>"
  have n0: "0 < n" using k(1) by (cases cells) (simp_all add: n_def)
  have nj: "n < 2 ^ j" unfolding j_def by (rule bitLength_upper)
  have j26: "j \<le> 26"
  proof (rule ccontr)
    assume "\<not> j \<le> 26"
    then have "27 \<le> bitLength n" by (simp add: j_def)
    then have "(2::nat) ^ 26 \<le> 2 ^ (bitLength n - 1)" by (intro power_increasing) simp_all
    also have "\<dots> \<le> n" using n0 by (intro bitLength_lower) simp
    finally show False using assms(2) by (simp add: n_def)
  qed
  have j0: "0 < j"
  proof (rule ccontr)
    assume "\<not> 0 < j"
    with nj n0 show False by simp
  qed
  have lo: "k * 2 ^ j \<le> c * n"
  proof -
    have "k * 2 ^ j + (n - 1) < n + c * n"
      unfolding c_def by (rule dividend_less_div_times[OF n0])
    then show ?thesis using n0 by linarith
  qed
  have hi: "c * n < (k + 1) * 2 ^ j"
  proof -
    have "c * n \<le> k * 2 ^ j + (n - 1)" unfolding c_def by (rule div_times_less_eq_dividend)
    also have "\<dots> < k * 2 ^ j + 2 ^ j" using nj n0 by simp
    finally show ?thesis by simp
  qed
  have cj: "c < 2 ^ j"
  proof -
    have "k + 1 \<le> n" using k(1) by (simp add: n_def)
    then have "(k + 1) * 2 ^ j \<le> n * 2 ^ j" by (rule mult_le_mono1)
    with hi have "c * n < 2 ^ j * n" by (simp only: mult.commute[of n])
    then show ?thesis by (rule mult_less_cancel2[THEN iffD1, THEN conjunct2])
  qed
  have p2: "(2::nat) ^ j \<le> 2 ^ 26" using j26 by (intro power_increasing) simp_all
  have "c * n < 2 ^ 26 * 2 ^ 26"
    using cj nj p2 by (intro mult_strict_mono) simp_all
  also have "\<dots> \<le> (2::nat) ^ 53" by simp
  finally have small: "c * n < 2 ^ 53" .
  have bl: "bitLength (c * n) - 53 = 0"
  proof (cases "c * n = 0")
    case True
    then have "bitLength (c * n) = 0" by (simp only: bitLength_numeral)
    then show ?thesis by simp
  next
    case False
    from bitLength_lower[OF False] small have lt: "(2::nat) ^ (bitLength (c * n) - 1) < 2 ^ 53"
      by (rule le_less_trans)
    have "bitLength (c * n) - 1 < 53" by (rule power_less_imp_less_exp[OF _ lt]) simp
    then show ?thesis by simp
  qed
  have t: "timesLength u n = \<lparr> mant = c * n, expo = - int j \<rparr>"
    by (simp add: timesLength_def Let_def u_def bl)
  have "c * n div 2 ^ j = k"
  proof -
    have "k \<le> c * n div 2 ^ j" using lo by (simp add: less_eq_div_iff_mult_less_eq)
    moreover have "c * n div 2 ^ j < k + 1" using hi by (simp add: div_less_iff_less_mult)
    ultimately show ?thesis by simp
  qed
  then have f: "mathFloor (timesLength u n) = k" using j0 by (simp add: t mathFloor_def)
  have "isRandomValue u"
  proof -
    have "c < 2 ^ 53" using cj p2 by simp
    moreover have "c = 0 \<or> c < 2 ^ nat (int j)" using cj by simp
    ultimately show ?thesis using j0 j26
      by (simp add: isRandomValue_def isDouble_def belowOne_def u_def)
  qed
  moreover have "pickRandom cells u = Some m"
    using k f by (simp add: pickRandom_def Let_def n_def)
  ultimately show ?thesis by blast
qed

lemma random_move_is_empty_cell:
  assumes "length b = 9" and "\<exists>i < 9. b ! i = None" and "isRandomValue u"
  shows "\<exists>m. getRandomMove b u = Some m \<and> m < 9 \<and> b ! m = None"
proof -
  have e: "set (emptyIndices b) = {i. i < 9 \<and> b ! i = None}"
    using assms(1) by (auto simp: emptyIndices_eq)
  from assms(2) obtain i where "i < 9" "b ! i = None" by blast
  then have "i \<in> set (emptyIndices b)" by (simp add: e)
  then have ne: "emptyIndices b \<noteq> []" by (cases "emptyIndices b") simp_all
  from pickRandom_in[OF assms(3) ne] obtain m
    where m: "pickRandom (emptyIndices b) u = Some m" "m \<in> set (emptyIndices b)" by blast
  from m(2) have "m < 9 \<and> b ! m = None" by (simp add: e)
  with m(1) show ?thesis by (simp add: getRandomMove_def)
qed

subsection \<open>The bot's timer\<close>

lemma cellAt_setAt: "cellAt (setAt b j v) i = (if i = j then v else cellAt b i)"
  by (auto simp: cellAt_def setAt_def nth_append nth_Cons')

lemma squares_difficulty: "squares (s\<lparr>difficulty := d\<rparr>) = squares s"
  by (simp add: squares_def)
lemma winner_difficulty: "winner (s\<lparr>difficulty := d\<rparr>) = winner s"
  by (simp add: winner_def winnerResult_def squares_difficulty)
lemma isBotTurn_difficulty: "isBotTurn (s\<lparr>difficulty := d\<rparr>) = isBotTurn s"
  by (simp add: isBotTurn_def isLatestStep_def winner_difficulty squares_difficulty)
lemma handleClick_difficulty:
  "handleClick i (s\<lparr>difficulty := d\<rparr>) = (handleClick i s)\<lparr>difficulty := d\<rparr>"
  by (simp add: handleClick_def winner_difficulty squares_difficulty Let_def)
lemma makeMove_difficulty:
  "makeMove u (s\<lparr>difficulty := d\<rparr>) = (makeMove u s)\<lparr>difficulty := d\<rparr>"
  by (simp add: makeMove_def squares_difficulty handleClick_difficulty Let_def
      split: option.splits)

lemma set_emptyIndices: "set (emptyIndices b) = {m. m < length b \<and> b ! m = None}"
  by (auto simp: emptyIndices_eq)

lemma difficulty_handleClick: "difficulty (handleClick i s) = difficulty s"
  by (simp add: handleClick_def Let_def)

lemma botTimer_difficulty:
  "botTimer u (s\<lparr>difficulty := d\<rparr>) = (botTimer u s)\<lparr>difficulty := d\<rparr>"
  by (simp add: botTimer_def isBotTurn_difficulty makeMove_difficulty)

text \<open>The run of the timer is the click on the cell that \<^verbatim>\<open>getRandomMove\<close> returns
  on the viewed grid for the same value of \<^verbatim>\<open>Math.random()\<close>.\<close>

lemma botTimer_getRandomMove:
  "botTimer u s = (if isBotTurn s
                   then (case getRandomMove (squares s) u of
                           Some m \<Rightarrow> handleClick m s
                         | None \<Rightarrow> s)
                   else s)"
  by (simp add: botTimer_def makeMove_def getRandomMove_def pickRandom_def Let_def)

lemma handleClick_accepted:
  assumes "\<not> truthy (cellAt (squares s) i)" and "winner s = None"
  shows "squares (handleClick i s) = setAt (squares s) i (Some (if xIsNext s then ''X'' else ''O''))"
    and "xIsNext (handleClick i s) = (\<not> xIsNext s)"
    and "handleClick i s \<noteq> s"
proof -
  show x: "xIsNext (handleClick i s) = (\<not> xIsNext s)"
    using assms by (simp add: handleClick_def Let_def)
  show "squares (handleClick i s) = setAt (squares s) i (Some (if xIsNext s then ''X'' else ''O''))"
  proof -
    let ?h = "take (step s + 1) (history s)"
    let ?n = "setAt (squares s) i (Some (if xIsNext s then ''X'' else ''O''))"
    have "handleClick i s = s\<lparr> history := ?h @ [?n], step := length (?h @ [?n]) - 1,
                                 xIsNext := \<not> xIsNext s \<rparr>"
      using assms by (simp add: handleClick_def Let_def)
    then have "squares (handleClick i s) = (?h @ [?n]) ! (length (?h @ [?n]) - 1)"
      by (simp add: squares_def)
    also have "\<dots> = (?h @ [?n]) ! length ?h" by simp
    also have "\<dots> = ?n" by (rule nth_append_length)
    finally show ?thesis .
  qed
  show "handleClick i s \<noteq> s"
  proof
    assume "handleClick i s = s"
    then have "xIsNext (handleClick i s) = xIsNext s" by simp
    with x show False by simp
  qed
qed

lemma handleClick_changed:
  assumes "handleClick i s \<noteq> s"
  shows "\<not> truthy (cellAt (squares s) i) \<and> winner s = None"
proof (rule ccontr)
  assume "\<not> (\<not> truthy (cellAt (squares s) i) \<and> winner s = None)"
  then have "truthy (cellAt (squares s) i) \<or> winner s \<noteq> None"
    by (simp only: de_Morgan_conj not_not)
  then have "handleClick i s = s" unfolding handleClick_def by (rule if_P)
  with assms show False by simp
qed

text \<open>Two accepted clicks with the same result are clicks on the same cell.\<close>

lemma handleClick_inj:
  assumes "handleClick i s = handleClick j s" and "handleClick j s \<noteq> s"
  shows "i = j"
proof (rule ccontr)
  assume ne: "i \<noteq> j"
  let ?v = "Some (if xIsNext s then ''X'' else ''O'')"
  from handleClick_changed[OF assms(2)]
  have j: "\<not> truthy (cellAt (squares s) j)" and w: "winner s = None" by simp_all
  from assms have "handleClick i s \<noteq> s" by simp
  from handleClick_changed[OF this] have i: "\<not> truthy (cellAt (squares s) i)" by simp
  from handleClick_accepted(1)[OF i w] handleClick_accepted(1)[OF j w] assms(1)
  have "setAt (squares s) i ?v = setAt (squares s) j ?v" by simp
  then have "cellAt (setAt (squares s) i ?v) j = cellAt (setAt (squares s) j ?v) j" by simp
  then have "cellAt (squares s) j = ?v" using ne by (simp add: cellAt_setAt)
  with j show False by (cases "xIsNext s") (simp_all add: truthy_def)
qed

lemma botTimer_submits:
  assumes "botTimer u s = handleClick m s" and "handleClick m s \<noteq> s"
  shows "isBotTurn s \<and> getRandomMove (squares s) u = Some m"
proof -
  from assms have ne: "botTimer u s \<noteq> s" by simp
  then have t: "isBotTurn s" by (auto simp: botTimer_def split: if_splits)
  from ne t obtain m' where m': "getRandomMove (squares s) u = Some m'"
    by (cases "getRandomMove (squares s) u") (simp_all add: botTimer_getRandomMove)
  with t have "botTimer u s = handleClick m' s" by (simp add: botTimer_getRandomMove)
  with assms(1) have "handleClick m' s = handleClick m s" by simp
  from handleClick_inj[OF this assms(2)] m' t show ?thesis by simp
qed

lemma isBotTurn_submits:
  assumes "isBotTurn s" and "getRandomMove (squares s) u = Some m"
  shows "m < length (squares s)" and "squares s ! m = None"
    and "botTimer u s = handleClick m s" and "handleClick m s \<noteq> s"
    and "squares (botTimer u s) = (squares s)[m := Some ''O'']"
proof -
  from assms(2) have "m \<in> set (emptyIndices (squares s))"
    unfolding getRandomMove_def by (rule pickRandom_Some)
  then show m: "m < length (squares s)" and n: "squares s ! m = None"
    by (simp_all add: set_emptyIndices)
  then have c: "\<not> truthy (cellAt (squares s) m)" by (simp add: cellAt_def truthy_def)
  from assms(1) have w: "winner s = None" and x: "\<not> xIsNext s" by (simp_all add: isBotTurn_def)
  show b: "botTimer u s = handleClick m s" using assms by (simp add: botTimer_getRandomMove)
  show "handleClick m s \<noteq> s" by (rule handleClick_accepted(3)[OF c w])
  show "squares (botTimer u s) = (squares s)[m := Some ''O'']"
    using handleClick_accepted(1)[OF c w] x m by (simp add: b setAt_def)
qed

lemma botMoves_eq:
  "botMoves s = {m. isBotTurn s \<and> (\<exists>u. isRandomValue u \<and> getRandomMove (squares s) u = Some m)}"
proof (rule set_eqI, rule iffI)
  fix m assume "m \<in> botMoves s"
  then obtain u where u: "isRandomValue u" "botTimer u s = handleClick m s" "handleClick m s \<noteq> s"
    by (auto simp: botMoves_def)
  from botTimer_submits[OF u(2,3)] u(1)
  show "m \<in> {m. isBotTurn s \<and> (\<exists>u. isRandomValue u \<and> getRandomMove (squares s) u = Some m)}"
    by blast
next
  fix m assume "m \<in> {m. isBotTurn s \<and> (\<exists>u. isRandomValue u \<and> getRandomMove (squares s) u = Some m)}"
  then obtain u where t: "isBotTurn s" and u: "isRandomValue u" "getRandomMove (squares s) u = Some m"
    by blast
  from isBotTurn_submits(3,4)[OF t u(2)] u(1) show "m \<in> botMoves s"
    unfolding botMoves_def by blast
qed

lemma botMoves_difficulty: "botMoves (s\<lparr>difficulty := d\<rparr>) = botMoves s"
  by (simp only: botMoves_eq isBotTurn_difficulty squares_difficulty)

lemma botMoves_null_cells:
  assumes "length (squares s) < 2 ^ 26"
  shows "botMoves s = (if isBotTurn s then {m. m < length (squares s) \<and> squares s ! m = None} else {})"
proof (cases "isBotTurn s")
  case False
  then show ?thesis by (simp add: botMoves_eq)
next
  case True
  have l: "length (emptyIndices (squares s)) < 2 ^ 26"
  proof -
    have "length (filter (\<lambda>i. squares s ! i = None) [0..<length (squares s)])
          \<le> length [0..<length (squares s)]"
      by (rule length_filter_le)
    then have "length (emptyIndices (squares s)) \<le> length (squares s)"
      by (simp add: emptyIndices_eq)
    with assms show ?thesis by simp
  qed
  have "{m. \<exists>u. isRandomValue u \<and> pickRandom (emptyIndices (squares s)) u = Some m}
        = set (emptyIndices (squares s))"
  proof (rule set_eqI, rule iffI)
    fix m assume "m \<in> {m. \<exists>u. isRandomValue u \<and> pickRandom (emptyIndices (squares s)) u = Some m}"
    then show "m \<in> set (emptyIndices (squares s))" using pickRandom_Some by blast
  next
    fix m assume "m \<in> set (emptyIndices (squares s))"
    from pickRandom_all[OF this l]
    show "m \<in> {m. \<exists>u. isRandomValue u \<and> pickRandom (emptyIndices (squares s)) u = Some m}"
      by simp
  qed
  then show ?thesis using True by (simp add: botMoves_eq getRandomMove_def set_emptyIndices)
qed

lemma handleClick_step_valid:
  "step s < length (history s) \<Longrightarrow> step (handleClick i s) < length (history (handleClick i s))"
  by (simp add: handleClick_def Let_def)

text \<open>Every handler keeps the view index inside the history, \<^verbatim>\<open>jumpTo\<close> doing so
  for the indices the interface offers.\<close>

lemma handler_keeps_step_valid:
  assumes "step s < length (history s)"
      and "\<And>k. e = JumpTo k \<Longrightarrow> k < length (history s)"
  shows "step (handler e s) < length (history (handler e s))"
proof (cases e)
  case (Select i)
  with handleClick_step_valid[OF assms(1)] show ?thesis by simp
next
  case (JumpTo k)
  with assms(2) show ?thesis by (simp add: jumpTo_def)
next
  case Reset
  then show ?thesis by (simp add: handleReset_def)
next
  case (SetMode m)
  then show ?thesis by (simp add: handleModeChange_def)
next
  case (SetDifficulty d)
  then show ?thesis by (simp add: handleDifficultyChange_def handleReset_def)
next
  case (RenameMark mark v)
  with assms(1) show ?thesis by (cases mark) (simp_all add: handleNameChange_def)
next
  case (BotTimer u)
  with assms(1) handleClick_step_valid[OF assms(1)] show ?thesis
    by (simp add: botTimer_def makeMove_def Let_def split: option.splits)
qed

subsection \<open>Analysis of \<^verbatim>\<open>minimax\<close>\<close>

lemma fold_pick_max_from:
  assumes "\<forall>j \<in> set before. v j < v m0" and "\<forall>j \<in> set after. v j \<le> v m0"
  shows "\<exists>pre m post. before @ m0 # after @ cs = pre @ m # post
      \<and> fold (pick True v) cs (Finite (v m0), Some m0) = (Finite (v m), Some m)
      \<and> (\<forall>j \<in> set pre. v j < v m) \<and> (\<forall>j \<in> set post. v j \<le> v m)"
  using assms
proof (induction cs arbitrary: before m0 after)
  case Nil
  then show ?case by fastforce
next
  case (Cons c cs)
  show ?case
  proof (cases "v m0 < v c")
    case True
    then have s: "pick True v c (Finite (v m0), Some m0) = (Finite (v c), Some c)"
      by (simp add: pick_def)
    have b: "\<forall>j \<in> set (before @ m0 # after). v j < v c"
      using Cons.prems True by fastforce
    have a: "\<forall>j \<in> set []. v j \<le> v c" by simp
    from Cons.IH[OF b a] obtain pre m post where
      r: "(before @ m0 # after) @ c # [] @ cs = pre @ m # post"
         "fold (pick True v) cs (Finite (v c), Some c) = (Finite (v m), Some m)"
         "\<forall>j \<in> set pre. v j < v m" "\<forall>j \<in> set post. v j \<le> v m"
      by blast
    have "before @ m0 # after @ c # cs = pre @ m # post" using r(1) by simp
    moreover have "fold (pick True v) (c # cs) (Finite (v m0), Some m0) = (Finite (v m), Some m)"
      by (simp add: s r(2))
    ultimately show ?thesis using r(3,4) by blast
  next
    case False
    then have s: "pick True v c (Finite (v m0), Some m0) = (Finite (v m0), Some m0)"
      by (simp add: pick_def)
    have a: "\<forall>j \<in> set (after @ [c]). v j \<le> v m0"
      using Cons.prems(2) False by fastforce
    from Cons.IH[OF Cons.prems(1) a] obtain pre m post where
      r: "before @ m0 # (after @ [c]) @ cs = pre @ m # post"
         "fold (pick True v) cs (Finite (v m0), Some m0) = (Finite (v m), Some m)"
         "\<forall>j \<in> set pre. v j < v m" "\<forall>j \<in> set post. v j \<le> v m"
      by blast
    have "before @ m0 # after @ c # cs = pre @ m # post" using r(1) by simp
    moreover have "fold (pick True v) (c # cs) (Finite (v m0), Some m0) = (Finite (v m), Some m)"
      by (simp add: s r(2))
    ultimately show ?thesis using r(3,4) by blast
  qed
qed

lemma fold_pick_max:
  assumes "cs \<noteq> []"
  shows "\<exists>pre m post. cs = pre @ m # post
      \<and> fold (pick True v) cs (NegInfinity, None) = (Finite (v m), Some m)
      \<and> (\<forall>j \<in> set pre. v j < v m) \<and> (\<forall>j \<in> set post. v j \<le> v m)"
proof -
  from assms obtain c cs' where cs: "cs = c # cs'" by (cases cs) auto
  have s: "pick True v c (NegInfinity, None) = (Finite (v c), Some c)" by (simp add: pick_def)
  from fold_pick_max_from[of "[]" v c "[]" cs'] show ?thesis by (simp add: cs s)
qed

lemma fold_pick_min_from:
  assumes "\<forall>j \<in> set before. v m0 < v j" and "\<forall>j \<in> set after. v m0 \<le> v j"
  shows "\<exists>pre m post. before @ m0 # after @ cs = pre @ m # post
      \<and> fold (pick False v) cs (Finite (v m0), Some m0) = (Finite (v m), Some m)
      \<and> (\<forall>j \<in> set pre. v m < v j) \<and> (\<forall>j \<in> set post. v m \<le> v j)"
  using assms
proof (induction cs arbitrary: before m0 after)
  case Nil
  then show ?case by fastforce
next
  case (Cons c cs)
  show ?case
  proof (cases "v c < v m0")
    case True
    then have s: "pick False v c (Finite (v m0), Some m0) = (Finite (v c), Some c)"
      by (simp add: pick_def)
    have b: "\<forall>j \<in> set (before @ m0 # after). v c < v j"
      using Cons.prems True by fastforce
    have a: "\<forall>j \<in> set []. v c \<le> v j" by simp
    from Cons.IH[OF b a] obtain pre m post where
      r: "(before @ m0 # after) @ c # [] @ cs = pre @ m # post"
         "fold (pick False v) cs (Finite (v c), Some c) = (Finite (v m), Some m)"
         "\<forall>j \<in> set pre. v m < v j" "\<forall>j \<in> set post. v m \<le> v j"
      by blast
    have "before @ m0 # after @ c # cs = pre @ m # post" using r(1) by simp
    moreover have "fold (pick False v) (c # cs) (Finite (v m0), Some m0) = (Finite (v m), Some m)"
      by (simp add: s r(2))
    ultimately show ?thesis using r(3,4) by blast
  next
    case False
    then have s: "pick False v c (Finite (v m0), Some m0) = (Finite (v m0), Some m0)"
      by (simp add: pick_def)
    have a: "\<forall>j \<in> set (after @ [c]). v m0 \<le> v j"
      using Cons.prems(2) False by fastforce
    from Cons.IH[OF Cons.prems(1) a] obtain pre m post where
      r: "before @ m0 # (after @ [c]) @ cs = pre @ m # post"
         "fold (pick False v) cs (Finite (v m0), Some m0) = (Finite (v m), Some m)"
         "\<forall>j \<in> set pre. v m < v j" "\<forall>j \<in> set post. v m \<le> v j"
      by blast
    have "before @ m0 # after @ c # cs = pre @ m # post" using r(1) by simp
    moreover have "fold (pick False v) (c # cs) (Finite (v m0), Some m0) = (Finite (v m), Some m)"
      by (simp add: s r(2))
    ultimately show ?thesis using r(3,4) by blast
  qed
qed

lemma fold_pick_min:
  assumes "cs \<noteq> []"
  shows "\<exists>pre m post. cs = pre @ m # post
      \<and> fold (pick False v) cs (PosInfinity, None) = (Finite (v m), Some m)
      \<and> (\<forall>j \<in> set pre. v m < v j) \<and> (\<forall>j \<in> set post. v m \<le> v j)"
proof -
  from assms obtain c cs' where cs: "cs = c # cs'" by (cases cs) auto
  have s: "pick False v c (PosInfinity, None) = (Finite (v c), Some c)" by (simp add: pick_def)
  from fold_pick_min_from[of "[]" v c "[]" cs'] show ?thesis by (simp add: cs s)
qed

text \<open>In an ascending list without repetition, what stands before an element is smaller.\<close>

lemma ascending_split:
  assumes "sorted_wrt (<) (pre @ m # post)" and "j \<in> set (pre @ m # post)" and "j < (m::nat)"
  shows "j \<in> set pre"
proof -
  from assms(1) have "\<forall>x \<in> set post. m < x"
    by (simp add: sorted_wrt_append)
  with assms(2,3) show ?thesis by auto
qed

lemma fold_minimaxStep:
  assumes len: "\<forall>i \<in> set idxs. i < length b"
      and clean: "\<forall>c \<in> set b. c = None \<or> truthy c"
      and mark: "mark = (if isMax then botMark else humanMark)" "mark \<noteq> []"
      and calls: "\<forall>i \<in> set idxs. b ! i = None \<longrightarrow>
                   (\<exists>mv. call (b[i := Some mark]) (\<not> isMax)
                           = Some ((Finite (v i), mv), b[i := Some mark]))"
  shows "fold (minimaxStep call botMark humanMark isMax) idxs (Some (b, best))
         = Some (b, fold (pick isMax v) (filter (\<lambda>i. b ! i = None) idxs) best)"
  using len calls
proof (induction idxs arbitrary: best)
  case Nil
  show ?case by simp
next
  case (Cons i idxs)
  have i: "i < length b" using Cons.prems(1) by simp
  have p1: "\<forall>j \<in> set idxs. j < length b" using Cons.prems(1) by simp
  have p2: "\<forall>j \<in> set idxs. b ! j = None \<longrightarrow>
                   (\<exists>mv. call (b[j := Some mark]) (\<not> isMax)
                           = Some ((Finite (v j), mv), b[j := Some mark]))"
    using Cons.prems(2) by simp
  note IH = Cons.IH[OF p1 p2]
  show ?case
  proof (cases "b ! i = None")
    case True
    then have nt: "\<not> truthy (cellAt b i)" using i by (simp add: cellAt_def truthy_def)
    from Cons.prems(2) True obtain mv where
      c: "call (b[i := Some mark]) (\<not> isMax) = Some ((Finite (v i), mv), b[i := Some mark])"
      by auto
    have restore: "setAt (b[i := Some mark]) i None = b"
      using i True by (simp add: setAt_def list_update_same_conv)
    have placed: "setAt b i (Some (if isMax then botMark else humanMark)) = b[i := Some mark]"
      using i mark(1) by (simp add: setAt_def)
    have step: "minimaxStep call botMark humanMark isMax i (Some (b, best))
        = Some (b, pick isMax v i best)"
      using nt c restore placed
      by (simp add: minimaxStep_def Let_def pick_def)
    have "fold (minimaxStep call botMark humanMark isMax) (i # idxs) (Some (b, best))
        = fold (minimaxStep call botMark humanMark isMax) idxs (Some (b, pick isMax v i best))"
      by (simp only: fold_simps step)
    also have "\<dots> = Some (b, fold (pick isMax v) (filter (\<lambda>i. b ! i = None) idxs)
                              (pick isMax v i best))"
      by (rule IH)
    also have "\<dots> = Some (b, fold (pick isMax v) (filter (\<lambda>i. b ! i = None) (i # idxs)) best)"
      using True by simp
    finally show ?thesis .
  next
    case False
    have "b ! i \<in> set b" using i by simp
    with clean have d: "b ! i = None \<or> truthy (b ! i)" by (rule bspec)
    have "truthy (b ! i)"
    proof (rule disjE[OF d])
      assume "b ! i = None" with False show ?thesis by (rule notE)
    next
      assume "truthy (b ! i)" then show ?thesis .
    qed
    then have "truthy (cellAt b i)" using i by (simp add: cellAt_def)
    then have step: "minimaxStep call botMark humanMark isMax i (Some (b, best)) = Some (b, best)"
      by (simp add: minimaxStep_def)
    have "fold (minimaxStep call botMark humanMark isMax) (i # idxs) (Some (b, best))
        = fold (minimaxStep call botMark humanMark isMax) idxs (Some (b, best))"
      by (simp only: fold_simps step)
    also have "\<dots> = Some (b, fold (pick isMax v) (filter (\<lambda>i. b ! i = None) idxs) best)"
      by (rule IH)
    also have "\<dots> = Some (b, fold (pick isMax v) (filter (\<lambda>i. b ! i = None) (i # idxs)) best)"
      using False by (simp only: filter.simps if_False)
    finally show ?thesis .
  qed
qed

lemma numEmpty_update:
  "j < length c \<Longrightarrow> c ! j = None \<Longrightarrow> Suc (numEmpty (c[j := Some m])) = numEmpty c"
proof (induction c arbitrary: j)
  case Nil
  then show ?case by simp
next
  case (Cons a c)
  show ?case
  proof (cases j)
    case 0
    with Cons.prems show ?thesis by (simp add: numEmpty_def)
  next
    case (Suc k)
    with Cons.prems have "Suc (numEmpty (c[k := Some m])) = numEmpty c"
      by (intro Cons.IH) simp_all
    with Suc show ?thesis by (simp add: numEmpty_def)
  qed
qed

lemma okBoard_update:
  assumes "okBoard botMark humanMark b" "m = botMark \<or> m = humanMark"
  shows "okBoard botMark humanMark (b[i := Some m])"
  using assms by (auto simp: okBoard_def list_all_iff dest: set_update_subset_insert[THEN subsetD])

lemma okBoard_clean:
  assumes "marksOk botMark humanMark" "okBoard botMark humanMark b"
  shows "\<forall>c \<in> set b. c = None \<or> truthy c"
  using assms by (auto simp: okBoard_def marksOk_def list_all_iff truthy_def)

lemma not_full_has_empty:
  assumes "marksOk botMark humanMark" "okBoard botMark humanMark b" "\<not> everyBoolean b"
  shows "filter (\<lambda>i. b ! i = None) [0..<9] \<noteq> []"
proof -
  from assms(3) obtain c where c: "c \<in> set b" "\<not> truthy c"
    by (auto simp: everyBoolean_def list_all_iff)
  with okBoard_clean[OF assms(1,2)] have "c = None" by auto
  with c(1) obtain i where "i < length b" "b ! i = None" by (auto simp: in_set_conv_nth)
  moreover have "length b = 9" using assms(2) by (simp add: okBoard_def)
  ultimately have "i \<in> set (filter (\<lambda>i. b ! i = None) [0..<9])" by simp
  then show ?thesis by (cases "filter (\<lambda>i. b ! i = None) [0..<9]") simp_all
qed

lemma gameValue_terminal:
  "winnerIs b botMark \<Longrightarrow> gameValue botMark humanMark b isMax = 1"
  "\<not> winnerIs b botMark \<Longrightarrow> winnerIs b humanMark \<Longrightarrow> gameValue botMark humanMark b isMax = - 1"
  "\<not> winnerIs b botMark \<Longrightarrow> \<not> winnerIs b humanMark \<Longrightarrow> everyBoolean b
     \<Longrightarrow> gameValue botMark humanMark b isMax = 0"
  by (simp_all add: gameValue.simps)

lemma gameValue_step:
  assumes "\<not> terminalFor botMark humanMark b" "length b = 9"
  shows "gameValue botMark humanMark b isMax =
     (let vals = map (\<lambda>i. gameValue botMark humanMark
                                  (b[i := Some (if isMax then botMark else humanMark)]) (\<not> isMax))
                          (filter (\<lambda>i. b ! i = None) [0..<9])
           in if isMax then Max (set vals) else Min (set vals))"
  using assms by (subst gameValue.simps) (simp add: terminalFor_def)

lemma minimax_terminal:
  "winnerIs b botMark
     \<Longrightarrow> minimax (Suc fuel) botMark humanMark b isMax = Some ((Finite 1, None), b)"
  "\<not> winnerIs b botMark \<Longrightarrow> winnerIs b humanMark
     \<Longrightarrow> minimax (Suc fuel) botMark humanMark b isMax = Some ((Finite (- 1), None), b)"
  "\<not> winnerIs b botMark \<Longrightarrow> \<not> winnerIs b humanMark \<Longrightarrow> everyBoolean b
     \<Longrightarrow> minimax (Suc fuel) botMark humanMark b isMax = Some ((Finite 0, None), b)"
  by (simp_all add: minimax.simps winnerIs_def Let_def)

lemma minimax_step:
  assumes "\<not> terminalFor botMark humanMark b"
  shows "minimax (Suc fuel) botMark humanMark b isMax =
      map_option (\<lambda>(board, best). (best, board))
                (fold (minimaxStep (minimax fuel botMark humanMark) botMark humanMark isMax)
                   [0..<9]
                   (Some (b, (if isMax then NegInfinity else PosInfinity, None))))"
  using assms by (simp add: minimax.simps terminalFor_def winnerIs_def Let_def)

lemma minimax_refines:
  assumes mk: "marksOk botMark humanMark"
  shows "okBoard botMark humanMark b \<Longrightarrow> numEmpty b < fuel \<Longrightarrow>
    \<exists>mv. minimax fuel botMark humanMark b isMax
            = Some ((Finite (gameValue botMark humanMark b isMax), mv), b)
       \<and> (if terminalFor botMark humanMark b then mv = None
          else \<exists>m. mv = Some m \<and> m < 9 \<and> b ! m = None
                 \<and> gameValue botMark humanMark
                      (b[m := Some (if isMax then botMark else humanMark)]) (\<not> isMax)
                    = gameValue botMark humanMark b isMax
                 \<and> (\<forall>j < 9. b ! j = None \<longrightarrow>
                      (let vj = gameValue botMark humanMark
                                  (b[j := Some (if isMax then botMark else humanMark)]) (\<not> isMax);
                           vm = gameValue botMark humanMark b isMax
                       in if isMax then vj \<le> vm \<and> (j < m \<longrightarrow> vj < vm)
                          else vm \<le> vj \<and> (j < m \<longrightarrow> vm < vj))))"
proof (induction fuel arbitrary: b isMax)
  case 0
  then show ?case by simp
next
  case (Suc fuel)
  note ok = Suc.prems(1)
  have len: "length b = 9" using ok by (simp add: okBoard_def)
  show ?case
  proof (cases "terminalFor botMark humanMark b")
    case True
    note mt = minimax_terminal
    note gt = gameValue_terminal
    consider (bot) "winnerIs b botMark"
      | (human) "\<not> winnerIs b botMark" "winnerIs b humanMark"
      | (full) "\<not> winnerIs b botMark" "\<not> winnerIs b humanMark" "everyBoolean b"
      using True unfolding terminalFor_def by blast
    then show ?thesis
    proof cases
      case bot
      show ?thesis by (simp add: mt(1)[OF bot] gt(1)[OF bot] True)
    next
      case human
      show ?thesis by (simp add: mt(2)[OF human] gt(2)[OF human] True)
    next
      case full
      show ?thesis by (simp add: mt(3)[OF full] gt(3)[OF full] True)
    qed
  next
    case False
    define mark where "mark = (if isMax then botMark else humanMark)"
    define cs where "cs = filter (\<lambda>i. b ! i = None) [0..<9]"
    define v where "v = (\<lambda>i. gameValue botMark humanMark (b[i := Some mark]) (\<not> isMax))"
    have mark_ne: "mark \<noteq> []" and mark_in: "mark = botMark \<or> mark = humanMark"
      using mk by (auto simp: mark_def marksOk_def)
    have calls: "\<forall>i \<in> set [0..<9]. b ! i = None \<longrightarrow>
        (\<exists>mv. minimax fuel botMark humanMark (b[i := Some mark]) (\<not> isMax)
                = Some ((Finite (v i), mv), b[i := Some mark]))"
    proof (intro ballI impI)
      fix i assume i: "i \<in> set [0..<9]" and e: "b ! i = None"
      then have il: "i < length b" using len by simp
      have "numEmpty (b[i := Some mark]) < fuel"
        using numEmpty_update[OF il e, of mark] Suc.prems(2) by simp
      moreover have "okBoard botMark humanMark (b[i := Some mark])"
        by (rule okBoard_update[OF ok mark_in])
      ultimately have "\<exists>mv. minimax fuel botMark humanMark (b[i := Some mark]) (\<not> isMax)
            = Some ((Finite (gameValue botMark humanMark (b[i := Some mark]) (\<not> isMax)), mv),
                    b[i := Some mark])
          \<and> (if terminalFor botMark humanMark (b[i := Some mark]) then mv = None
          else \<exists>m. mv = Some m \<and> m < 9 \<and> (b[i := Some mark]) ! m = None
                 \<and> gameValue botMark humanMark
                      ((b[i := Some mark])[m := Some (if \<not> isMax then botMark else humanMark)])
                      (\<not> \<not> isMax)
                    = gameValue botMark humanMark (b[i := Some mark]) (\<not> isMax)
                 \<and> (\<forall>j < 9. (b[i := Some mark]) ! j = None \<longrightarrow>
                      (let vj = gameValue botMark humanMark
                                  ((b[i := Some mark])[j := Some (if \<not> isMax then botMark else humanMark)])
                                  (\<not> \<not> isMax);
                           vm = gameValue botMark humanMark (b[i := Some mark]) (\<not> isMax)
                       in if \<not> isMax then vj \<le> vm \<and> (j < m \<longrightarrow> vj < vm)
                          else vm \<le> vj \<and> (j < m \<longrightarrow> vm < vj))))"
        by (intro Suc.IH)
      then show "\<exists>mv. minimax fuel botMark humanMark (b[i := Some mark]) (\<not> isMax)
                = Some ((Finite (v i), mv), b[i := Some mark])"
        unfolding v_def by blast
    qed
    have inrange: "\<forall>i \<in> set [0..<9]. i < length b" using len by simp
    have loop: "fold (minimaxStep (minimax fuel botMark humanMark) botMark humanMark isMax) [0..<9]
                  (Some (b, best)) = Some (b, fold (pick isMax v) cs best)" for best
      unfolding cs_def
      by (rule fold_minimaxStep[where call="minimax fuel botMark humanMark" and v=v
            and idxs="[0..<9]" and b=b and mark=mark and isMax=isMax
            and botMark=botMark and humanMark=humanMark,
            OF inrange okBoard_clean[OF mk ok] mark_def mark_ne calls])
    have ne: "cs \<noteq> []" unfolding cs_def
      using False by (intro not_full_has_empty[OF mk ok]) (simp add: terminalFor_def)
    have asc: "sorted_wrt (<) cs" unfolding cs_def by (intro sorted_wrt_filter) simp
    have incs: "j \<in> set cs" if "j < 9" "b ! j = None" for j
      using that by (simp add: cs_def)
    have res: "minimax (Suc fuel) botMark humanMark b isMax
        = Some (fold (pick isMax v) cs (if isMax then NegInfinity else PosInfinity, None), b)"
      by (simp only: minimax_step[OF False] loop option.map prod.case)
    have gv: "gameValue botMark humanMark b isMax
        = (if isMax then Max (v ` set cs) else Min (v ` set cs))"
      by (simp add: gameValue_step[OF False len] Let_def cs_def v_def mark_def)
    have fin: "finite (v ` set cs)" by simp
    show ?thesis
    proof (cases isMax)
      case True
      from fold_pick_max[OF ne, of v] obtain pre m post where m: "cs = pre @ m # post"
        "fold (pick True v) cs (NegInfinity, None) = (Finite (v m), Some m)"
        "\<forall>j \<in> set pre. v j < v m" "\<forall>j \<in> set post. v j \<le> v m" by blast
      have mcs: "m \<in> set cs" by (simp add: m(1))
      have all: "\<forall>j \<in> set cs. v j \<le> v m" using m(1,3,4) by fastforce
      have "Max (v ` set cs) = v m"
        using mcs all by (intro Max_eqI fin) auto
      then have g: "gameValue botMark humanMark b isMax = v m" using True gv by simp
      have mm: "m < 9 \<and> b ! m = None" using mcs by (simp add: cs_def)
      have first: "v j \<le> v m \<and> (j < m \<longrightarrow> v j < v m)" if j: "j < 9" "b ! j = None" for j
      proof -
        have jc: "j \<in> set cs" by (rule incs[OF j])
        then have "v j \<le> v m" using all by blast
        moreover have "v j < v m" if "j < m"
        proof -
          have "j \<in> set pre"
            by (rule ascending_split[OF asc[unfolded m(1)] jc[unfolded m(1)] that])
          with m(3) show ?thesis by blast
        qed
        ultimately show ?thesis by blast
      qed
      have "minimax (Suc fuel) botMark humanMark b isMax
            = Some ((Finite (gameValue botMark humanMark b isMax), Some m), b)"
        using res True m(2) g by simp
      moreover have "gameValue botMark humanMark (b[m := Some (if isMax then botMark else humanMark)])
             (\<not> isMax) = gameValue botMark humanMark b isMax"
        using g by (simp add: v_def mark_def)
      moreover have "\<forall>j < 9. b ! j = None \<longrightarrow>
                      (let vj = gameValue botMark humanMark
                                  (b[j := Some (if isMax then botMark else humanMark)]) (\<not> isMax);
                           vm = gameValue botMark humanMark b isMax
                       in if isMax then vj \<le> vm \<and> (j < m \<longrightarrow> vj < vm)
                          else vm \<le> vj \<and> (j < m \<longrightarrow> vm < vj))"
        using first True g by (simp add: Let_def v_def mark_def)
      ultimately show ?thesis using False mm by simp
    next
      case No: False
      from fold_pick_min[OF ne, of v] obtain pre m post where m: "cs = pre @ m # post"
        "fold (pick False v) cs (PosInfinity, None) = (Finite (v m), Some m)"
        "\<forall>j \<in> set pre. v m < v j" "\<forall>j \<in> set post. v m \<le> v j" by blast
      have mcs: "m \<in> set cs" by (simp add: m(1))
      have all: "\<forall>j \<in> set cs. v m \<le> v j" using m(1,3,4) by fastforce
      have "Min (v ` set cs) = v m"
        using mcs all by (intro Min_eqI fin) auto
      then have g: "gameValue botMark humanMark b isMax = v m" using No gv by simp
      have mm: "m < 9 \<and> b ! m = None" using mcs by (simp add: cs_def)
      have first: "v m \<le> v j \<and> (j < m \<longrightarrow> v m < v j)" if j: "j < 9" "b ! j = None" for j
      proof -
        have jc: "j \<in> set cs" by (rule incs[OF j])
        then have "v m \<le> v j" using all by blast
        moreover have "v m < v j" if "j < m"
        proof -
          have "j \<in> set pre"
            by (rule ascending_split[OF asc[unfolded m(1)] jc[unfolded m(1)] that])
          with m(3) show ?thesis by blast
        qed
        ultimately show ?thesis by blast
      qed
      have "minimax (Suc fuel) botMark humanMark b isMax
            = Some ((Finite (gameValue botMark humanMark b isMax), Some m), b)"
        using res No m(2) g by simp
      moreover have "gameValue botMark humanMark (b[m := Some (if isMax then botMark else humanMark)])
             (\<not> isMax) = gameValue botMark humanMark b isMax"
        using g by (simp add: v_def mark_def)
      moreover have "\<forall>j < 9. b ! j = None \<longrightarrow>
                      (let vj = gameValue botMark humanMark
                                  (b[j := Some (if isMax then botMark else humanMark)]) (\<not> isMax);
                           vm = gameValue botMark humanMark b isMax
                       in if isMax then vj \<le> vm \<and> (j < m \<longrightarrow> vj < vm)
                          else vm \<le> vj \<and> (j < m \<longrightarrow> vm < vj))"
        using first No g by (simp add: Let_def v_def mark_def)
      ultimately show ?thesis using False mm by simp
    qed
  qed
qed

lemma anyOf_iff: "anyOf f xs = (\<exists>x \<in> set xs. f x)"
  by (induction xs) auto

lemma allOf_iff: "allOf f xs = (\<forall>x \<in> set xs. f x)"
  by (induction xs) auto

lemma length_paint: "length (paint botMark humanMark p) = length p"
  by (simp add: paint_def)

lemma cellAt_paint:
  "cellAt (paint botMark humanMark p) i
     = map_option (\<lambda>bot. if bot then botMark else humanMark) (owner p i)"
  by (simp add: cellAt_def owner_def paint_def)

lemma nth_paint_None:
  "i < length p \<Longrightarrow> (paint botMark humanMark p ! i = None) = (p ! i = None)"
  by (simp add: paint_def)

lemma paint_update:
  "(paint botMark humanMark p)[i := Some (if s then botMark else humanMark)]
     = paint botMark humanMark (p[i := Some s])"
  by (simp add: paint_def map_update)

lemma emptyBoard_paint: "emptyBoard = paint botMark humanMark (replicate 9 None)"
  by (simp add: emptyBoard_def paint_def)

lemma okBoard_paint: "length p = 9 \<Longrightarrow> okBoard botMark humanMark (paint botMark humanMark p)"
  by (auto simp: okBoard_def paint_def list_all_iff split: option.splits)

lemma everyBoolean_paint:
  assumes "marksOk botMark humanMark"
  shows "everyBoolean (paint botMark humanMark p) = list_all (\<lambda>c. c \<noteq> None) p"
  using assms
  by (auto simp: everyBoolean_def paint_def list_all_iff truthy_def marksOk_def
           split: option.splits)

lemma scanLines_paint:
  assumes mk: "marksOk botMark humanMark"
  shows "map_option fst (scanLines (paint botMark humanMark p) ls)
           = map_option (\<lambda>bot. if bot then botMark else humanMark) (lineOwner p ls)"
proof (induction ls)
  case Nil
  show ?case by simp
next
  case (Cons l ls)
  obtain i j k where l: "l = (i, j, k)" by (cases l) auto
  define mark where "mark = (\<lambda>bot. if bot then botMark else humanMark)"
  have inj: "(map_option mark x = map_option mark y) = (x = y)" for x y
    using mk by (cases x; cases y) (auto simp: mark_def marksOk_def)
  have tr: "truthy (map_option mark x) = (x \<noteq> None)" for x
    using mk by (cases x) (auto simp: truthy_def mark_def marksOk_def)
  have c: "cellAt (paint botMark humanMark p) n = map_option mark (owner p n)" for n
    by (simp add: cellAt_paint mark_def)
  define B where "B = paint botMark humanMark p"
  have cond: "(truthy (cellAt B i) \<and> cellAt B i = cellAt B j \<and> cellAt B i = cellAt B k)
      = (owner p i \<noteq> None \<and> owner p i = owner p j \<and> owner p i = owner p k)"
    unfolding B_def by (simp only: c inj tr)
  show ?case unfolding B_def[symmetric] l
  proof (cases "owner p i \<noteq> None \<and> owner p i = owner p j \<and> owner p i = owner p k")
    case True
    then obtain s where s: "owner p i = Some s" by auto
    have cc: "truthy (cellAt B i) \<and> cellAt B i = cellAt B j \<and> cellAt B i = cellAt B k"
      unfolding cond by (rule True)
    have "scanLines B ((i, j, k) # ls) = Some (the (cellAt B i), (i, j, k))"
      by (subst scanLines.simps) (rule if_P[OF cc])
    moreover have "cellAt B i = Some (mark s)" unfolding B_def by (simp add: c s)
    moreover have "lineOwner p ((i, j, k) # ls) = Some s"
      unfolding s[symmetric] by (subst lineOwner.simps) (rule if_P[OF True])
    ultimately show "map_option fst (scanLines B ((i, j, k) # ls))
        = map_option (\<lambda>bot. if bot then botMark else humanMark) (lineOwner p ((i, j, k) # ls))"
      by (simp add: mark_def)
  next
    case False
    have nc: "\<not> (truthy (cellAt B i) \<and> cellAt B i = cellAt B j \<and> cellAt B i = cellAt B k)"
      unfolding cond by (rule False)
    have "scanLines B ((i, j, k) # ls) = scanLines B ls"
      by (subst scanLines.simps) (rule if_not_P[OF nc])
    moreover have "lineOwner p ((i, j, k) # ls) = lineOwner p ls"
      by (subst lineOwner.simps) (rule if_not_P[OF False])
    ultimately show "map_option fst (scanLines B ((i, j, k) # ls))
        = map_option (\<lambda>bot. if bot then botMark else humanMark) (lineOwner p ((i, j, k) # ls))"
      using Cons.IH by (simp add: B_def)
  qed
qed

lemma winnerIs_paint:
  assumes mk: "marksOk botMark humanMark"
  shows "winnerIs (paint botMark humanMark p) botMark = (lineOwner p lines = Some True)"
    and "winnerIs (paint botMark humanMark p) humanMark = (lineOwner p lines = Some False)"
proof -
  have "map_option fst (calculateWinner (paint botMark humanMark p))
          = map_option (\<lambda>bot. if bot then botMark else humanMark) (lineOwner p lines)"
    unfolding calculateWinner_def by (rule scanLines_paint[OF mk])
  then show "winnerIs (paint botMark humanMark p) botMark = (lineOwner p lines = Some True)"
    and "winnerIs (paint botMark humanMark p) humanMark = (lineOwner p lines = Some False)"
    using mk by (auto simp: winnerIs_def marksOk_def split: if_splits)
qed

lemma winner_is_a_mark:
  assumes "okBoard botMark humanMark b" "calculateWinner b = Some (w, l)"
  shows "w = botMark \<or> w = humanMark"
proof -
  from assms(2) obtain i j k where f: "find (wins b) lines = Some (i, j, k)"
      and w: "w = the (cellAt b i)"
    by (auto simp: calculateWinner_def scanLines_find split: option.splits)
  from f have "wins b (i, j, k)" by (auto simp: find_Some_iff)
  then have t: "truthy (cellAt b i)" unfolding wins_def prod.case by (rule conjunct1)
  then have i: "i < length b" by (cases "i < length b") (simp_all add: cellAt_def truthy_def)
  then have "b ! i \<in> set b" by simp
  with assms(1) have "b ! i = None \<or> b ! i = Some botMark \<or> b ! i = Some humanMark"
    by (simp add: okBoard_def list_all_iff)
  with t i w show ?thesis by (auto simp: cellAt_def truthy_def)
qed

lemma gameOver_terminalFor:
  assumes "okBoard botMark humanMark b"
  shows "gameOver b = terminalFor botMark humanMark b"
proof -
  have "calculateWinner b \<noteq> None \<longleftrightarrow> winnerIs b botMark \<or> winnerIs b humanMark"
  proof
    assume "calculateWinner b \<noteq> None"
    then obtain w l where c: "calculateWinner b = Some (w, l)" by auto
    from winner_is_a_mark[OF assms c] c
    show "winnerIs b botMark \<or> winnerIs b humanMark" by (auto simp: winnerIs_def)
  next
    assume "winnerIs b botMark \<or> winnerIs b humanMark"
    then show "calculateWinner b \<noteq> None" by (auto simp: winnerIs_def)
  qed
  then show ?thesis by (simp add: gameOver_def terminalFor_def)
qed

lemma canHold_sound:
  assumes mk: "marksOk botMark humanMark"
  shows "length p = 9 \<Longrightarrow> canHold n p t
         \<Longrightarrow> 0 \<le> gameValue botMark humanMark (paint botMark humanMark p) t"
proof (induction n arbitrary: p t)
  case 0
  then show ?case by simp
next
  case (Suc n)
  define b where "b = paint botMark humanMark p"
  have ok: "okBoard botMark humanMark b" unfolding b_def by (rule okBoard_paint[OF Suc.prems(1)])
  have len: "length b = 9" using ok by (simp add: okBoard_def)
  note wp = winnerIs_paint[OF mk, of p, folded b_def]
  note ep = everyBoolean_paint[OF mk, of p, folded b_def]
  show ?case unfolding b_def[symmetric]
  proof (cases "terminalFor botMark humanMark b")
    case True
    then consider (bot) "winnerIs b botMark"
      | (human) "\<not> winnerIs b botMark" "winnerIs b humanMark"
      | (full) "\<not> winnerIs b botMark" "\<not> winnerIs b humanMark" "everyBoolean b"
      unfolding terminalFor_def by blast
    then show "0 \<le> gameValue botMark humanMark b t"
    proof cases
      case bot
      then show ?thesis by (simp add: gameValue_terminal)
    next
      case human
      then have "lineOwner p lines = Some False" by (simp add: wp)
      with Suc.prems(2) show ?thesis by simp
    next
      case full
      then show ?thesis by (simp add: gameValue_terminal)
    qed
  next
    case False
    then have nt: "\<not> winnerIs b botMark" "\<not> winnerIs b humanMark" "\<not> everyBoolean b"
      by (simp_all add: terminalFor_def)
    then have lo: "lineOwner p lines = None"
      using wp by (cases "lineOwner p lines") auto
    have nf: "\<not> list_all (\<lambda>c. c \<noteq> None) p" using nt(3) ep by simp
    define mark where "mark = (if t then botMark else humanMark)"
    define cs where "cs = filter (\<lambda>i. b ! i = None) [0..<9]"
    define v where "v = (\<lambda>i. gameValue botMark humanMark (b[i := Some mark]) (\<not> t))"
    have gv: "gameValue botMark humanMark b t
        = (if t then Max (v ` set cs) else Min (v ` set cs))"
      by (simp add: gameValue_step[OF False len] Let_def cs_def v_def mark_def)
    have ne: "cs \<noteq> []" unfolding cs_def by (rule not_full_has_empty[OF mk ok nt(3)])
    have fin: "finite (v ` set cs)" by simp
    have upd: "b[i := Some mark] = paint botMark humanMark (p[i := Some t])" for i
      unfolding b_def mark_def by (rule paint_update)
    have child: "0 \<le> v i" if "canHold n (p[i := Some t]) (\<not> t)" for i
      unfolding v_def upd using Suc.prems(1) that by (intro Suc.IH) simp_all
    have emp: "(b ! i = None) = (p ! i = None)" if "i < 9" for i
      unfolding b_def using that Suc.prems(1) by (simp add: nth_paint_None)
    show "0 \<le> gameValue botMark humanMark b t"
    proof (cases t)
      case True
      from Suc.prems(2) lo nf True
      have "anyOf (holdAt (canHold n) True p) [4, 0, 2, 6, 8, 1, 3, 5, 7]"
        by simp
      then obtain i where i: "i \<in> set [4, 0, 2, 6, 8, 1, 3, 5, 7]"
        "holdAt (canHold n) True p i"
        unfolding anyOf_iff by blast
      from i(2) have e: "p ! i = None" and h: "canHold n (p[i := Some True]) False"
        by (auto simp: holdAt_def split: if_splits)
      from i(1) have i9: "i < 9" by auto
      with e have "i \<in> set cs" by (simp add: cs_def emp)
      moreover have "0 \<le> v i" using child[of i] h True by simp
      ultimately have "0 \<le> Max (v ` set cs)"
        by (subst Max_ge_iff) (auto intro: fin)
      with gv True show ?thesis by simp
    next
      case No: False
      from Suc.prems(2) lo nf No
      have "allOf (holdAt (canHold n) False p) [0, 1, 2, 3, 4, 5, 6, 7, 8]"
        by simp
      then have all: "\<forall>i \<in> set [0, 1, 2, 3, 4, 5, 6, 7, 8]. holdAt (canHold n) False p i"
        unfolding allOf_iff .
      have "0 \<le> v i" if "i \<in> set cs" for i
      proof -
        from that have i: "i < 9" "b ! i = None" by (simp_all add: cs_def)
        then have "i \<in> set [0, 1, 2, 3, 4, 5, 6, 7, 8]" by (simp; arith)
        with all have "holdAt (canHold n) False p i" by (rule bspec)
        with i have "canHold n (p[i := Some False]) True"
          by (simp add: holdAt_def emp)
        with child[of i] No show ?thesis by simp
      qed
      then have "0 \<le> Min (v ` set cs)"
        using ne by (subst Min_ge_iff) (auto intro: fin)
      with gv No show ?thesis by simp
    qed
  qed
qed

lemma gameValue_human_move:
  assumes ok: "okBoard botMark humanMark b" and nt: "\<not> terminalFor botMark humanMark b"
      and i: "i < 9" "b ! i = None"
  shows "gameValue botMark humanMark b False
         \<le> gameValue botMark humanMark (b[i := Some humanMark]) True"
proof -
  have len: "length b = 9" using ok by (simp add: okBoard_def)
  define v where "v = (\<lambda>i. gameValue botMark humanMark (b[i := Some humanMark]) True)"
  define cs where "cs = filter (\<lambda>i. b ! i = None) [0..<9]"
  have gv: "gameValue botMark humanMark b False = Min (v ` set cs)"
    by (simp add: gameValue_step[OF nt len] Let_def cs_def v_def)
  have "i \<in> set cs" using i by (simp add: cs_def)
  then have "Min (v ` set cs) \<le> v i" by (intro Min_le) auto
  then show ?thesis by (simp add: gv v_def)
qed

lemma gameValue_nonneg_not_lost:
  assumes "marksOk botMark humanMark" "0 \<le> gameValue botMark humanMark b t"
  shows "\<not> winnerIs b humanMark"
proof
  assume h: "winnerIs b humanMark"
  then have "\<not> winnerIs b botMark" using assms(1) by (auto simp: winnerIs_def marksOk_def)
  from gameValue_terminal(2)[OF this h] assms(2) show False by simp
qed

lemma human_first_holds: "canHold 10 (replicate 9 None) False"
  by code_simp

lemma bot_first_holds: "canHold 10 (replicate 9 None) True"
  by code_simp

lemma empty_grid_not_lost:
  assumes "marksOk botMark humanMark"
  shows "0 \<le> gameValue botMark humanMark emptyBoard t"
proof (cases t)
  case True
  with canHold_sound[OF assms _ bot_first_holds] show ?thesis
    by (simp add: emptyBoard_paint[symmetric])
next
  case False
  with canHold_sound[OF assms _ human_first_holds] show ?thesis
    by (simp add: emptyBoard_paint[symmetric])
qed

lemma numEmpty_le: "numEmpty b \<le> length b"
  by (simp add: numEmpty_def)

lemma getBestMove_nonterminal:
  assumes mk: "marksOk botMark humanMark" and ok: "okBoard botMark humanMark b"
      and nt: "\<not> terminalFor botMark humanMark b" and fuel: "9 < fuel"
  shows "\<exists>m. getBestMove fuel b botMark humanMark u = Some (Some m) \<and> m < 9 \<and> b ! m = None
           \<and> gameValue botMark humanMark (b[m := Some botMark]) False
              = gameValue botMark humanMark b True
           \<and> (\<forall>j < 9. b ! j = None \<longrightarrow>
                 gameValue botMark humanMark (b[j := Some botMark]) False
                   \<le> gameValue botMark humanMark (b[m := Some botMark]) False
               \<and> (j < m \<longrightarrow> gameValue botMark humanMark (b[j := Some botMark]) False
                            < gameValue botMark humanMark (b[m := Some botMark]) False))"
proof -
  have "length b = 9" using ok by (simp add: okBoard_def)
  with numEmpty_le[of b] fuel have "numEmpty b < fuel" by simp
  from minimax_refines[OF mk ok this, of True] nt
  obtain m where m: "minimax fuel botMark humanMark b True
       = Some ((Finite (gameValue botMark humanMark b True), Some m), b)"
    "m < 9" "b ! m = None"
    "gameValue botMark humanMark (b[m := Some botMark]) False
       = gameValue botMark humanMark b True"
    "\<forall>j < 9. b ! j = None \<longrightarrow>
        gameValue botMark humanMark (b[j := Some botMark]) False
          \<le> gameValue botMark humanMark b True
        \<and> (j < m \<longrightarrow> gameValue botMark humanMark (b[j := Some botMark]) False
                       < gameValue botMark humanMark b True)"
    by (auto simp: Let_def)
  have "getBestMove fuel b botMark humanMark u = Some (Some m)"
    by (simp add: getBestMove_def m(1))
  with m(2-5) show ?thesis by simp
qed

text \<open>
  On an array of fewer than nine cells the recursive calls lengthen the array of their
  caller: the writes at index 8 leave a ninth cell holding \<^verbatim>\<open>null\<close>, so that the
  grid is not full when the search comes to cell 7, and the answer is 7.
\<close>

lemma getBestMove_short_array:
  "getBestMove 10 [Some ''X'', Some ''X'', Some ''O'',
                   Some ''O'', None, Some ''X'',
                   Some ''X'', None] ''X'' ''O'' oneHalf = Some (Some 7)"
  by code_simp

lemma optimalPlay_invariant:
  assumes mk: "marksOk botMark humanMark"
  shows "optimalPlay botMark humanMark b t
         \<Longrightarrow> okBoard botMark humanMark b \<and> 0 \<le> gameValue botMark humanMark b t"
proof (induction rule: optimalPlay.induct)
  case (start botFirst)
  have "okBoard botMark humanMark emptyBoard"
    unfolding emptyBoard_paint[of botMark humanMark] by (rule okBoard_paint) simp
  with empty_grid_not_lost[OF mk] show ?case by simp
next
  case (humanMove b i)
  then have ok: "okBoard botMark humanMark b"
    and v: "0 \<le> gameValue botMark humanMark b False" by simp_all
  have len: "length b = 9" using ok by (simp add: okBoard_def)
  have s: "setAt b i (Some humanMark) = b[i := Some humanMark]"
    using humanMove.hyps(3) len by (simp add: setAt_def)
  have nt: "\<not> terminalFor botMark humanMark b"
    using humanMove.hyps(2) gameOver_terminalFor[OF ok] by simp
  from gameValue_human_move[OF ok nt humanMove.hyps(3,4)] v
  have "0 \<le> gameValue botMark humanMark (b[i := Some humanMark]) True" by simp
  moreover have "okBoard botMark humanMark (b[i := Some humanMark])"
    by (rule okBoard_update[OF ok]) simp
  ultimately show ?case by (simp add: s)
next
  case (botMove b fuel u m)
  then have ok: "okBoard botMark humanMark b"
    and v: "0 \<le> gameValue botMark humanMark b True" by simp_all
  have len: "length b = 9" using ok by (simp add: okBoard_def)
  have nt: "\<not> terminalFor botMark humanMark b"
    using botMove.hyps(2) gameOver_terminalFor[OF ok] by simp
  from getBestMove_nonterminal[OF mk ok nt botMove.hyps(3), of u] botMove.hyps(4)
  have m: "m < 9" "b ! m = None"
    "gameValue botMark humanMark (b[m := Some botMark]) False = gameValue botMark humanMark b True"
    by auto
  have s: "setAt b m (Some botMark) = b[m := Some botMark]"
    using m(1) len by (simp add: setAt_def)
  have "okBoard botMark humanMark (b[m := Some botMark])"
    by (rule okBoard_update[OF ok]) simp
  with m(3) v show ?case by (simp add: s)
qed

subsection \<open>The properties of the specification\<close>

text \<open>
  C1 (as amended). Let the two marks be non-empty and distinct.  In play from the empty
  grid in which the bot always moves by \<^verbatim>\<open>getBestMove\<close>, whatever cells the human
  takes and whoever starts, no grid that is reached is a win for the human mark.
  Whenever it is the bot's turn in an unfinished game, \<^verbatim>\<open>getBestMove\<close> returns, with
  any fuel above 9, an empty cell; the grid it leads to has the greatest value among the
  successor grids, and a strictly greater value than those of all empty cells of smaller
  index.
\<close>

theorem optimal_bot_never_loses:
  assumes "marksOk botMark humanMark" and "optimalPlay botMark humanMark b t"
  shows "map_option fst (calculateWinner b) \<noteq> Some humanMark
       \<and> (t \<and> \<not> gameOver b \<and> 9 < fuel \<longrightarrow>
            (\<exists>m. getBestMove fuel b botMark humanMark u = Some (Some m) \<and> m < 9 \<and> b ! m = None
               \<and> (\<forall>j < 9. b ! j = None \<longrightarrow>
                     gameValue botMark humanMark (b[j := Some botMark]) False
                       \<le> gameValue botMark humanMark (b[m := Some botMark]) False
                   \<and> (j < m \<longrightarrow> gameValue botMark humanMark (b[j := Some botMark]) False
                                < gameValue botMark humanMark (b[m := Some botMark]) False))))"
proof -
  from optimalPlay_invariant[OF assms]
  have ok: "okBoard botMark humanMark b" and v: "0 \<le> gameValue botMark humanMark b t"
    by simp_all
  from gameValue_nonneg_not_lost[OF assms(1) v]
  have a: "map_option fst (calculateWinner b) \<noteq> Some humanMark" by (simp add: winnerIs_def)
  show ?thesis
  proof (intro conjI impI)
    show "map_option fst (calculateWinner b) \<noteq> Some humanMark" by (rule a)
  next
    assume h: "t \<and> \<not> gameOver b \<and> 9 < fuel"
    then have nt: "\<not> terminalFor botMark humanMark b"
      using gameOver_terminalFor[OF ok] by simp
    from h have f: "9 < fuel" by simp
    from getBestMove_nonterminal[OF assms(1) ok nt f, of u]
    show "\<exists>m. getBestMove fuel b botMark humanMark u = Some (Some m) \<and> m < 9 \<and> b ! m = None
               \<and> (\<forall>j < 9. b ! j = None \<longrightarrow>
                     gameValue botMark humanMark (b[j := Some botMark]) False
                       \<le> gameValue botMark humanMark (b[m := Some botMark]) False
                   \<and> (j < m \<longrightarrow> gameValue botMark humanMark (b[j := Some botMark]) False
                                < gameValue botMark humanMark (b[m := Some botMark]) False))"
      by blast
  qed
qed

text \<open>The theorem after the human's opening move in the centre, with O for the bot.\<close>

theorem optimal_bot_never_loses_witness:
  "marksOk ''O'' ''X''
   \<and> optimalPlay ''O'' ''X'' (setAt emptyBoard 4 (Some ''X'')) True
   \<and> map_option fst (calculateWinner (setAt emptyBoard 4 (Some ''X''))) \<noteq> Some ''X''
   \<and> (\<exists>m. getBestMove 10 (setAt emptyBoard 4 (Some ''X'')) ''O'' ''X'' oneHalf = Some (Some m)
          \<and> m < 9 \<and> setAt emptyBoard 4 (Some ''X'') ! m = None)"
proof -
  let ?b = "setAt emptyBoard 4 (Some ''X'')"
  have mk: "marksOk ''O'' ''X''" by (simp add: marksOk_def)
  have e: "\<not> gameOver emptyBoard" by code_simp
  have n: "emptyBoard ! 4 = None" by code_simp
  have p: "optimalPlay ''O'' ''X'' ?b True"
    by (rule optimalPlay.humanMove[OF optimalPlay.start e _ n]) simp
  have g: "True \<and> \<not> gameOver ?b \<and> (9::nat) < 10" by code_simp
  note r = optimal_bot_never_loses[OF mk p, of 10 oneHalf]
  from r have a: "map_option fst (calculateWinner ?b) \<noteq> Some ''X''"
    by (rule conjunct1)
  from r[THEN conjunct2, THEN mp, OF g] obtain m where
    "getBestMove 10 ?b ''O'' ''X'' oneHalf = Some (Some m) \<and> m < 9 \<and> ?b ! m = None"
    by (elim exE conjE) (rule that, intro conjI)
  then have b: "\<exists>m. getBestMove 10 ?b ''O'' ''X'' oneHalf = Some (Some m) \<and> m < 9 \<and> ?b ! m = None"
    by (rule exI)
  show ?thesis by (intro conjI mk p a b)
qed

text \<open>
  C1 as stated fails: the grid \<open>lostGrid\<close> is reached by legal alternating play, it is
  O's turn and the game is not over; \<^verbatim>\<open>getBestMove\<close> answers cell 2, the human takes
  cell 3 and wins with the triple \<open>(0, 3, 6)\<close>.
\<close>

theorem lost_grid_counterexample:
  "squares (cur (run lostPlay)) = lostGrid
   \<and> \<not> xIsNext (cur (run lostPlay))
   \<and> \<not> gameOver lostGrid
   \<and> getBestMove 10 lostGrid ''O'' ''X'' oneHalf = Some (Some 2)
   \<and> calculateWinner (setAt (setAt lostGrid 2 (Some ''O'')) 3 (Some ''X''))
       = Some (''X'', (0, 3, 6))"
  by code_simp

text \<open>
  C2. The outcome the component computes for a grid, \<^verbatim>\<open>calculateWinner\<close> followed
  by the test \<^verbatim>\<open>squares.every(Boolean)\<close>: the eight triples are scanned in the order
  rows top to bottom, columns left to right, then the two diagonals; the outcome is
  \<open>Win w l\<close> exactly when \<open>l\<close> is the first triple whose three cells are equal and
  non-empty and \<open>w\<close> is the mark in them; it is \<open>Draw\<close> exactly when no triple wins
  and every cell is occupied, that is, holds a non-empty string, and \<open>Unfinished\<close>
  exactly when no triple wins and some cell is not occupied.  This holds for a grid of
  any length.  The score effect counts
  by this outcome, and the game is over exactly when the outcome is not \<open>Unfinished\<close>.
\<close>

theorem evaluate_win_draw_unfinished:
  "lines = map rowLine [0, 1, 2] @ map colLine [0, 1, 2] @ [(0, 4, 8), (2, 4, 6)]
   \<and> calculateWinner b = firstWin b
   \<and> (\<forall>w l. evaluate b = Win w l \<longleftrightarrow>
         (\<exists>before after. lines = before @ l # after \<and> (\<forall>l' \<in> set before. \<not> wins b l')
            \<and> wins b l \<and> cellAt b (fst l) = Some w))
   \<and> (evaluate b = Draw \<longleftrightarrow>
         (\<forall>l \<in> set lines. \<not> wins b l) \<and> (\<forall>i < length b. truthy (b ! i)))
   \<and> (evaluate b = Unfinished \<longleftrightarrow>
         (\<forall>l \<in> set lines. \<not> wins b l) \<and> (\<exists>i < length b. \<not> truthy (b ! i)))
   \<and> scoreEffect s =
         (case evaluate (squares s) of
            Win w l \<Rightarrow> s\<lparr> scores := bumpWinner w (scores s) \<rparr>
          | Draw \<Rightarrow> s\<lparr> scores := (scores s)\<lparr> scoreDraw := scoreDraw (scores s) + 1 \<rparr> \<rparr>
          | Unfinished \<Rightarrow> s)
   \<and> gameOver b = (evaluate b \<noteq> Unfinished)"
proof -
  have c: "calculateWinner b = firstWin b" for b
    by (simp add: calculateWinner_def firstWin_def scanLines_find)
  have none: "calculateWinner b = None \<longleftrightarrow> (\<forall>l \<in> set lines. \<not> wins b l)" for b
  proof -
    have "calculateWinner b = None \<longleftrightarrow> find (wins b) lines = None"
      by (auto simp: c firstWin_def split: option.splits)
    also have "\<dots> \<longleftrightarrow> (\<forall>l \<in> set lines. \<not> wins b l)" unfolding find_None_iff by blast
    finally show ?thesis .
  qed
  have full: "everyBoolean b \<longleftrightarrow> (\<forall>i < length b. truthy (b ! i))"
    by (simp add: everyBoolean_def list_all_length)
  have some: "calculateWinner b = Some (w, l) \<longleftrightarrow>
         (\<exists>before after. lines = before @ l # after \<and> (\<forall>l' \<in> set before. \<not> wins b l')
            \<and> wins b l \<and> cellAt b (fst l) = Some w)" (is "?L \<longleftrightarrow> ?R") for b w l
  proof
    assume ?L
    then obtain i j k where f: "find (wins b) lines = Some (i, j, k)"
      and l: "l = (i, j, k)" and w: "w = the (cellAt b i)"
      by (auto simp: c firstWin_def split: option.splits)
    from f obtain n where n: "n < length lines" "wins b (lines ! n)" "lines ! n = (i, j, k)"
      "\<forall>m < n. \<not> wins b (lines ! m)"
      by (auto simp: find_Some_iff)
    have "lines = take n lines @ l # drop (Suc n) lines"
      unfolding l n(3)[symmetric] by (rule id_take_nth_drop[OF n(1)])
    moreover have "\<forall>l' \<in> set (take n lines). \<not> wins b l'"
    proof
      fix l' assume "l' \<in> set (take n lines)"
      then obtain m where "m < n" "l' = lines ! m"
        using n(1) by (auto simp: in_set_conv_nth)
      with n(4) show "\<not> wins b l'" by simp
    qed
    moreover have "wins b l" using n l by simp
    moreover from this have "cellAt b (fst l) = Some w"
      using l w by (auto simp: wins_def truthy_def split: option.splits)
    ultimately show ?R by blast
  next
    assume ?R
    then obtain before after where r: "lines = before @ l # after"
      "\<forall>l' \<in> set before. \<not> wins b l'" "wins b l" "cellAt b (fst l) = Some w"
      by blast
    have "find (wins b) (before @ l # after) = Some l"
      using r(2,3) by (induction before) simp_all
    then have "find (wins b) lines = Some l" by (simp only: r(1)[symmetric])
    then show ?L using r(4) by (cases l) (simp add: c firstWin_def)
  qed
  have w: "winner s = map_option fst (calculateWinner (squares s))"
  proof (cases "calculateWinner (squares s)")
    case None
    then show ?thesis by (simp add: winner_def winnerResult_def)
  next
    case (Some r)
    obtain w l where r: "r = (w, l)" by (cases r)
    from Some[unfolded r, unfolded some] have "wins (squares s) l" "cellAt (squares s) (fst l) = Some w"
      by blast+
    then have "w \<noteq> []" by (cases l) (auto simp: wins_def truthy_def)
    then show ?thesis using Some r by (simp add: winner_def winnerResult_def)
  qed
  show ?thesis
  proof (intro conjI allI)
    show "lines = map rowLine [0, 1, 2] @ map colLine [0, 1, 2] @ [(0, 4, 8), (2, 4, 6)]"
      by (rule lines_order)
    show "calculateWinner b = firstWin b" by (rule c)
    show "evaluate b = Win w l \<longleftrightarrow>
         (\<exists>before after. lines = before @ l # after \<and> (\<forall>l' \<in> set before. \<not> wins b l')
            \<and> wins b l \<and> cellAt b (fst l) = Some w)" for w l
      unfolding some[symmetric] by (auto simp: evaluate_def split: option.splits)
    show "evaluate b = Draw \<longleftrightarrow>
         (\<forall>l \<in> set lines. \<not> wins b l) \<and> (\<forall>i < length b. truthy (b ! i))"
      unfolding none[symmetric] full[symmetric] by (auto simp: evaluate_def split: option.splits)
    show "evaluate b = Unfinished \<longleftrightarrow>
         (\<forall>l \<in> set lines. \<not> wins b l) \<and> (\<exists>i < length b. \<not> truthy (b ! i))"
    proof -
      have "(\<exists>i < length b. \<not> truthy (b ! i)) \<longleftrightarrow> \<not> everyBoolean b" by (auto simp: full)
      then show ?thesis
        unfolding none[symmetric] by (auto simp: evaluate_def split: option.splits)
    qed
    show "scoreEffect s =
         (case evaluate (squares s) of
            Win w l \<Rightarrow> s\<lparr> scores := bumpWinner w (scores s) \<rparr>
          | Draw \<Rightarrow> s\<lparr> scores := (scores s)\<lparr> scoreDraw := scoreDraw (scores s) + 1 \<rparr> \<rparr>
          | Unfinished \<Rightarrow> s)"
      by (simp add: scoreEffect_def w evaluate_def split: option.splits)
    show "gameOver b = (evaluate b \<noteq> Unfinished)"
      by (simp add: gameOver_def evaluate_def split: option.splits)
  qed
qed

text \<open>The theorem at Scenario A's final grid, at a drawn grid and at the empty grid.\<close>

theorem evaluate_win_draw_unfinished_witness:
  "evaluate (squares (cur (run scenarioA))) = Win ''X'' (0, 1, 2)
   \<and> (\<exists>before after. lines = before @ (0, 1, 2) # after
         \<and> wins (squares (cur (run scenarioA))) (0, 1, 2)
         \<and> cellAt (squares (cur (run scenarioA))) 0 = Some ''X'')
   \<and> evaluate drawnGrid = Draw \<and> length drawnGrid = 9
   \<and> evaluate emptyBoard = Unfinished \<and> calculateWinner drawnGrid = calculateWinner emptyBoard"
proof -
  let ?g = "squares (cur (run scenarioA))"
  note a = evaluate_win_draw_unfinished[of ?g]
  note d = evaluate_win_draw_unfinished[of drawnGrid]
  note e = evaluate_win_draw_unfinished[of emptyBoard]
  have f: "evaluate ?g = Win ''X'' (0, 1, 2)" by code_simp
  from a have "\<forall>w l. evaluate ?g = Win w l \<longleftrightarrow>
         (\<exists>before after. lines = before @ l # after \<and> (\<forall>l' \<in> set before. \<not> wins ?g l')
            \<and> wins ?g l \<and> cellAt ?g (fst l) = Some w)"
    by (intro conjunct1[OF conjunct2[OF conjunct2[OF a]]])
  then have "evaluate ?g = Win ''X'' (0, 1, 2) \<longleftrightarrow>
         (\<exists>before after. lines = before @ (0, 1, 2) # after \<and> (\<forall>l' \<in> set before. \<not> wins ?g l')
            \<and> wins ?g (0, 1, 2) \<and> cellAt ?g (fst (0::nat, 1::nat, 2::nat)) = Some ''X'')"
    by (elim allE)
  with f have "\<exists>before after. lines = before @ (0, 1, 2) # after
      \<and> (\<forall>l' \<in> set before. \<not> wins ?g l')
      \<and> wins ?g (0, 1, 2) \<and> cellAt ?g (fst (0::nat, 1::nat, 2::nat)) = Some ''X''"
    by (rule iffD1[rotated])
  then have g: "\<exists>before after. lines = before @ (0, 1, 2) # after
         \<and> wins ?g (0, 1, 2) \<and> cellAt ?g 0 = Some ''X''"
    by auto
  have nd: "(\<forall>l \<in> set lines. \<not> wins drawnGrid l) \<and> (\<forall>i < length drawnGrid. truthy (drawnGrid ! i))"
    by code_simp
  from d have "evaluate drawnGrid = Draw \<longleftrightarrow>
         (\<forall>l \<in> set lines. \<not> wins drawnGrid l) \<and> (\<forall>i < length drawnGrid. truthy (drawnGrid ! i))"
    by (intro conjunct1[OF conjunct2[OF conjunct2[OF conjunct2[OF d]]]])
  with nd have dr: "evaluate drawnGrid = Draw" by (rule iffD2[rotated])
  have ne: "(\<forall>l \<in> set lines. \<not> wins emptyBoard l) \<and> (\<exists>i < length emptyBoard. \<not> truthy (emptyBoard ! i))"
    by code_simp
  from e have "evaluate emptyBoard = Unfinished \<longleftrightarrow>
         (\<forall>l \<in> set lines. \<not> wins emptyBoard l) \<and> (\<exists>i < length emptyBoard. \<not> truthy (emptyBoard ! i))"
    by (intro conjunct1[OF conjunct2[OF conjunct2[OF conjunct2[OF conjunct2[OF e]]]]])
  with ne have un: "evaluate emptyBoard = Unfinished" by (rule iffD2[rotated])
  have l: "length drawnGrid = 9" by (simp add: drawnGrid_def)
  have cw: "calculateWinner drawnGrid = calculateWinner emptyBoard" by code_simp
  show ?thesis by (intro conjI f g dr l un cw)
qed

text \<open>
  C3. The score effect depends on \<^verbatim>\<open>[winner, step]\<close>, so moving the view away from
  a won grid and back runs it again.  After Scenario A the tally shows one win for X;
  after \<^verbatim>\<open>jumpTo(4)\<close> and \<^verbatim>\<open>jumpTo(5)\<close>, with no further move, it shows two.
\<close>

theorem jump_recounts_win:
  "scores (cur (run scenarioA)) = \<lparr> scoreX = 1, scoreO = 0, scoreDraw = 0 \<rparr>
   \<and> scores (cur (run (scenarioA @ [JumpTo 4]))) = \<lparr> scoreX = 1, scoreO = 0, scoreDraw = 0 \<rparr>
   \<and> scores (cur (run (scenarioA @ [JumpTo 4, JumpTo 5]))) = \<lparr> scoreX = 2, scoreO = 0, scoreDraw = 0 \<rparr>"
  by code_simp

text \<open>
  C4 (as amended). A click on an occupied cell, or while the viewed grid has a winner or
  is full, changes nothing at all.  A click on an empty cell of a grid without a winner is
  accepted wherever the view stands: the history is cut after the viewed grid and the
  successor grid appended.
\<close>

theorem invalid_select_is_noop:
  "(truthy (cellAt (squares s) i) \<or> winner s \<noteq> None
      \<or> (everyBoolean (squares s) \<and> i < length (squares s))
     \<longrightarrow> handleClick i s = s)
   \<and> (\<not> truthy (cellAt (squares s) i) \<and> winner s = None
     \<longrightarrow> history (handleClick i s)
           = take (step s + 1) (history s)
             @ [setAt (squares s) i (Some (if xIsNext s then ''X'' else ''O''))]
         \<and> step (handleClick i s) = length (take (step s + 1) (history s))
         \<and> xIsNext (handleClick i s) = (\<not> xIsNext s))"
  by (auto simp: handleClick_def everyBoolean_def cellAt_def list_all_length Let_def)

theorem invalid_select_is_noop_witness:
  "handleClick 0 staleView = staleView
   \<and> handleClick 7 (cur (run scenarioA)) = cur (run scenarioA)
   \<and> history (handleClick 8 staleView)
       = take 2 (history staleView) @ [setAt (squares staleView) 8 (Some ''O'')]"
proof -
  have o: "truthy (cellAt (squares staleView) 0)" by code_simp
  have w: "winner (cur (run scenarioA)) \<noteq> None" by code_simp
  have e: "\<not> truthy (cellAt (squares staleView) 8) \<and> winner staleView = None" by code_simp
  have s: "step staleView = 1" "xIsNext staleView = False" by code_simp+
  from invalid_select_is_noop[of staleView 0] o
  have a: "handleClick 0 staleView = staleView" by blast
  from invalid_select_is_noop[of "cur (run scenarioA)" 7] w
  have b: "handleClick 7 (cur (run scenarioA)) = cur (run scenarioA)" by blast
  from invalid_select_is_noop[of staleView 8] e
  have "history (handleClick 8 staleView)
           = take (step staleView + 1) (history staleView)
             @ [setAt (squares staleView) 8 (Some (if xIsNext staleView then ''X'' else ''O''))]"
    by blast
  with s have c: "history (handleClick 8 staleView)
       = take 2 (history staleView) @ [setAt (squares staleView) 8 (Some ''O'')]"
    by (simp add: numeral_2_eq_2)
  from a b c show ?thesis by blast
qed

text \<open>
  C4 as stated fails on its third case: while viewing stale history (index 1 of 4
  grids) a click on an empty cell is accepted; history, view index and turn all change.
\<close>

theorem stale_select_accepted_counterexample:
  "step staleView < length (history staleView) - 1
   \<and> length (history staleView) = 4
   \<and> history (handleClick 8 staleView) \<noteq> history staleView
   \<and> length (history (handleClick 8 staleView)) = 3
   \<and> step (handleClick 8 staleView) \<noteq> step staleView
   \<and> xIsNext (handleClick 8 staleView) \<noteq> xIsNext staleView"
  by code_simp

text \<open>
  C5. After \<^verbatim>\<open>jumpTo(k)\<close> with \<open>k < |History|\<close>, a click on an empty cell of a
  grid without a winner discards the entries beyond \<open>k\<close> and appends the successor
  grid: the history has \<open>k + 2\<close> entries whatever its length was, the first \<open>k + 1\<close>
  are the old ones, and the view index is \<open>k + 1\<close>.
\<close>

theorem select_after_jump_truncates:
  assumes "k < length (history s)"
      and "\<not> truthy (cellAt (history s ! k) c)"
      and "calculateWinner (history s ! k) = None"
  shows "length (history (handleClick c (jumpTo k s))) = k + 2
       \<and> step (handleClick c (jumpTo k s)) = k + 1
       \<and> take (k + 1) (history (handleClick c (jumpTo k s))) = take (k + 1) (history s)
       \<and> history (handleClick c (jumpTo k s)) ! (k + 1)
           = setAt (history s ! k) c (Some (if even k then ''X'' else ''O''))"
proof -
  have sq: "squares (jumpTo k s) = history s ! k" by (rule squares_jumpTo)
  have w: "winner (jumpTo k s) = None"
    by (simp add: winner_def winnerResult_def sq assms(3))
  have h: "history (jumpTo k s) = history s" "step (jumpTo k s) = k"
          "xIsNext (jumpTo k s) = even k"
    by (simp_all add: jumpTo_def even_iff_mod_2_eq_zero)
  show ?thesis using assms(1,2)
    by (simp add: handleClick_def sq w h Let_def nth_append min_def)
qed

theorem select_after_jump_truncates_witness:
  "length (history (cur (run [Select 0, Select 4, Select 1]))) = 4
   \<and> length (history staleView) = 4
   \<and> length (history (handleClick 8 (jumpTo 1 (cur (run [Select 0, Select 4, Select 1]))))) = 3
   \<and> step (handleClick 8 (jumpTo 1 (cur (run [Select 0, Select 4, Select 1])))) = 2"
proof -
  let ?s = "cur (run [Select 0, Select 4, Select 1])"
  have k: "1 < length (history ?s)" by code_simp
  have c: "\<not> truthy (cellAt (history ?s ! 1) 8)" by code_simp
  have w: "calculateWinner (history ?s ! 1) = None" by code_simp
  have n: "length (history ?s) = 4" by code_simp
  have n': "length (history staleView) = 4" by code_simp
  from select_after_jump_truncates[OF k c w] n n' show ?thesis by simp
qed

text \<open>
  C6. The run of the bot's timer does not depend on the difficulty.  Two sessions that
  differ only in the difficulty are in the bot's turn together, the timer takes them to
  sessions that again differ only in the difficulty, and the moves the bot can submit
  are the same.  With either difficulty the run of the timer is the click on the cell
  that \<^verbatim>\<open>getRandomMove\<close> returns on the viewed grid for the same random number,
  and nothing else: when the bot is to move, that cell is \<^verbatim>\<open>null\<close>, the click is
  accepted and puts an O there.  The moves the bot can submit are the results of
  \<^verbatim>\<open>getRandomMove\<close>, on a nine-cell grid every \<^verbatim>\<open>null\<close> cell.  In the
  session \<open>hardLost\<close>, with the difficulty set to hard, \<^verbatim>\<open>getBestMove\<close> answers
  cell 2 while the timer, for the random number one half, clicks cell 5.
\<close>

theorem move_selection_ignores_difficulty:
  "isBotTurn (s\<lparr>difficulty := d\<rparr>) = isBotTurn s
   \<and> botTimer u (s\<lparr>difficulty := d\<rparr>) = (botTimer u s)\<lparr>difficulty := d\<rparr>
   \<and> botMoves (s\<lparr>difficulty := d\<rparr>) = botMoves s
   \<and> botTimer u s = (if isBotTurn s
                      then (case getRandomMove (squares s) u of
                              Some m \<Rightarrow> handleClick m s
                            | None \<Rightarrow> s)
                      else s)
   \<and> (isBotTurn s \<and> isRandomValue u \<longrightarrow>
        (\<exists>m. getRandomMove (squares s) u = Some m
           \<and> m < length (squares s) \<and> squares s ! m = None
           \<and> botTimer u s = handleClick m s \<and> botTimer u s \<noteq> s
           \<and> squares (botTimer u s) = (squares s)[m := Some ''O'']
           \<and> m \<in> botMoves s))
   \<and> botMoves s = {m. isBotTurn s
                       \<and> (\<exists>v. isRandomValue v \<and> getRandomMove (squares s) v = Some m)}
   \<and> (length (squares s) = 9 \<longrightarrow>
        botMoves s = (if isBotTurn s then {m. m < 9 \<and> squares s ! m = None} else {}))
   \<and> difficulty hardLost = Hard \<and> isBotTurn hardLost \<and> squares hardLost = lostGrid
   \<and> getBestMove 10 (squares hardLost) ''O'' ''X'' oneHalf = Some (Some 2)
   \<and> botTimer oneHalf hardLost = handleClick 5 hardLost
   \<and> squares (botTimer oneHalf hardLost) \<noteq> squares (handleClick 2 hardLost)"
proof -
  have sub: "\<exists>m. getRandomMove (squares s) u = Some m
           \<and> m < length (squares s) \<and> squares s ! m = None
           \<and> botTimer u s = handleClick m s \<and> botTimer u s \<noteq> s
           \<and> squares (botTimer u s) = (squares s)[m := Some ''O'']
           \<and> m \<in> botMoves s"
    if t: "isBotTurn s" and u: "isRandomValue u"
  proof -
    from t have "list_ex (\<lambda>c. c = None) (squares s)" by (simp add: isBotTurn_def)
    then obtain i where "i < length (squares s)" "squares s ! i = None"
      by (auto simp: list_ex_length)
    then have "i \<in> set (emptyIndices (squares s))" by (simp add: set_emptyIndices)
    then have ne: "emptyIndices (squares s) \<noteq> []" by (cases "emptyIndices (squares s)") simp_all
    from pickRandom_in[OF u ne] obtain m where m: "getRandomMove (squares s) u = Some m"
      unfolding getRandomMove_def by blast
    note f = isBotTurn_submits[OF t m]
    have "botTimer u s \<noteq> s" using f(3,4) by simp
    moreover have "m \<in> botMoves s" unfolding botMoves_eq using t u m by blast
    ultimately show ?thesis using m f(1,2,3,5) by blast
  qed
  have nine: "botMoves s = (if isBotTurn s then {m. m < 9 \<and> squares s ! m = None} else {})"
    if l: "length (squares s) = 9"
  proof -
    have "length (squares s) < 2 ^ 26" by (simp add: l)
    from botMoves_null_cells[OF this] show ?thesis by (simp add: l)
  qed
  have hard: "difficulty hardLost = Hard \<and> isBotTurn hardLost \<and> squares hardLost = lostGrid
   \<and> getBestMove 10 (squares hardLost) ''O'' ''X'' oneHalf = Some (Some 2)
   \<and> botTimer oneHalf hardLost = handleClick 5 hardLost
   \<and> squares (botTimer oneHalf hardLost) \<noteq> squares (handleClick 2 hardLost)"
    by code_simp
  show ?thesis
    apply (intro conjI impI)
                apply (rule isBotTurn_difficulty)
               apply (rule botTimer_difficulty)
              apply (rule botMoves_difficulty)
             apply (rule botTimer_getRandomMove)
            apply (rule sub; elim conjE; assumption)
           apply (rule botMoves_eq)
          apply (erule nine)
         apply (rule hard[THEN conjunct1])
        apply (rule hard[THEN conjunct2, THEN conjunct1])
       apply (rule hard[THEN conjunct2, THEN conjunct2, THEN conjunct1])
      apply (rule hard[THEN conjunct2, THEN conjunct2, THEN conjunct2, THEN conjunct1])
     apply (rule hard[THEN conjunct2, THEN conjunct2, THEN conjunct2, THEN conjunct2, THEN conjunct1])
    apply (rule hard[THEN conjunct2, THEN conjunct2, THEN conjunct2, THEN conjunct2, THEN conjunct2])
    done
qed

text \<open>
  The theorem at \<open>hardLost\<close> with the random number one half: with the difficulty hard
  and with the difficulty easy the timer clicks cell 5, a \<^verbatim>\<open>null\<close> cell, which is
  not the cell 2 that \<^verbatim>\<open>getBestMove\<close> answers.
\<close>

theorem move_selection_ignores_difficulty_witness:
  "isBotTurn hardLost \<and> isRandomValue oneHalf \<and> length (squares hardLost) = 9
   \<and> getRandomMove (squares hardLost) oneHalf = Some 5
   \<and> (\<exists>m. getRandomMove (squares hardLost) oneHalf = Some m
          \<and> m < length (squares hardLost) \<and> squares hardLost ! m = None
          \<and> botTimer oneHalf hardLost = handleClick m hardLost
          \<and> botTimer oneHalf hardLost \<noteq> hardLost
          \<and> squares (botTimer oneHalf hardLost) = (squares hardLost)[m := Some ''O'']
          \<and> m \<in> botMoves hardLost)
   \<and> botTimer oneHalf (hardLost\<lparr>difficulty := Easy\<rparr>)
       = (botTimer oneHalf hardLost)\<lparr>difficulty := Easy\<rparr>
   \<and> botMoves hardLost = {m. m < 9 \<and> squares hardLost ! m = None}
   \<and> botMoves (hardLost\<lparr>difficulty := Easy\<rparr>) = {m. m < 9 \<and> squares hardLost ! m = None}
   \<and> getBestMove 10 (squares hardLost) ''O'' ''X'' oneHalf = Some (Some 2)"
proof -
  note r = move_selection_ignores_difficulty[where s = hardLost and d = Easy and u = oneHalf]
  have t: "isBotTurn hardLost" by code_simp
  have u: "isRandomValue oneHalf"
    by (simp add: isRandomValue_def isDouble_def belowOne_def oneHalf_def)
  have l: "length (squares hardLost) = 9" by code_simp
  have g: "getRandomMove (squares hardLost) oneHalf = Some 5" by code_simp
  have b: "getBestMove 10 (squares hardLost) ''O'' ''X'' oneHalf = Some (Some 2)" by code_simp
  from r have r2: "botTimer oneHalf (hardLost\<lparr>difficulty := Easy\<rparr>)
       = (botTimer oneHalf hardLost)\<lparr>difficulty := Easy\<rparr>"
    by (intro conjunct1[OF conjunct2[OF r]])
  from r have r3: "botMoves (hardLost\<lparr>difficulty := Easy\<rparr>) = botMoves hardLost"
    by (intro conjunct1[OF conjunct2[OF conjunct2[OF r]]])
  note r5 = r[THEN conjunct2, THEN conjunct2, THEN conjunct2, THEN conjunct2]
  from r5[THEN conjunct1, THEN mp, OF conjI[OF t u]]
  have e: "\<exists>m. getRandomMove (squares hardLost) oneHalf = Some m
          \<and> m < length (squares hardLost) \<and> squares hardLost ! m = None
          \<and> botTimer oneHalf hardLost = handleClick m hardLost
          \<and> botTimer oneHalf hardLost \<noteq> hardLost
          \<and> squares (botTimer oneHalf hardLost) = (squares hardLost)[m := Some ''O'']
          \<and> m \<in> botMoves hardLost" .
  from r5[THEN conjunct2, THEN conjunct2, THEN conjunct1, THEN mp, OF l]
  have "botMoves hardLost
      = (if isBotTurn hardLost then {m. m < 9 \<and> squares hardLost ! m = None} else {})" .
  then have m1: "botMoves hardLost = {m. m < 9 \<and> squares hardLost ! m = None}"
    by (simp only: t if_True)
  have m2: "botMoves (hardLost\<lparr>difficulty := Easy\<rparr>) = {m. m < 9 \<and> squares hardLost ! m = None}"
    by (simp only: r3 m1)
  show ?thesis by (intro conjI t u l g e r2 m1 m2 b)
qed

text \<open>
  C7. \<^verbatim>\<open>jumpTo\<close> recomputes the turn from the parity of the index alone: after
  \<^verbatim>\<open>jumpTo(k)\<close> it is X's turn exactly when \<open>k\<close> is even, hence O's turn exactly
  when \<open>k\<close> is odd, whatever the session was before; the view index becomes \<open>k\<close> and
  the history is not touched.
\<close>

theorem jumpTo_turn_parity:
  "xIsNext (jumpTo k s) = even k
   \<and> (\<not> xIsNext (jumpTo k s)) = odd k
   \<and> step (jumpTo k s) = k
   \<and> history (jumpTo k s) = history s"
  by (simp add: jumpTo_def even_iff_mod_2_eq_zero)

text \<open>
  C8. Reset, from any state of the rendered component: the history becomes the single
  all-empty grid, the view index 0 and the turn X's, while the score tally, the names,
  the mode (and the difficulty) stay as they were.  This holds for the handler and for
  the whole transition including the score effect that follows the render.
\<close>

theorem reset_reinitializes_and_frames:
  "history (cur (dispatch a Reset)) = [emptyBoard]
   \<and> step (cur (dispatch a Reset)) = 0
   \<and> xIsNext (cur (dispatch a Reset)) = True
   \<and> scores (cur (dispatch a Reset)) = scores (cur a)
   \<and> names (cur (dispatch a Reset)) = names (cur a)
   \<and> mode (cur (dispatch a Reset)) = mode (cur a)
   \<and> difficulty (cur (dispatch a Reset)) = difficulty (cur a)
   \<and> handleReset (cur a) = (cur a)\<lparr> history := [emptyBoard], step := 0, xIsNext := True \<rparr>"
  by (simp add: dispatch_def commit_def Let_def scoreEffect_fresh handleReset_def)

text \<open>
  C9. On a nine-cell grid with at least one \<^verbatim>\<open>null\<close> cell, for every binary64
  number below 1 that \<^verbatim>\<open>Math.random()\<close> may return, \<^verbatim>\<open>getRandomMove\<close> returns
  an index below 9 whose cell is \<^verbatim>\<open>null\<close>, the product being rounded as binary64
  arithmetic rounds it; and for any number at all, an index it returns is such an
  index.  The copy of that code inside the bot-move effect submits such an index: the
  timer's run is the click on it, which puts an O there; and no other index is among
  the moves the bot can submit.
\<close>

theorem random_strategy_selects_empty_cells:
  assumes "length b = 9" and "\<exists>i<9. b ! i = None" and "isRandomValue u"
  shows "(\<exists>m. getRandomMove b u = Some m \<and> m < 9 \<and> b ! m = None)
       \<and> (\<forall>v m. getRandomMove b v = Some m \<longrightarrow> m < 9 \<and> b ! m = None)
       \<and> (squares s = b \<longrightarrow>
            (\<exists>m. m < 9 \<and> b ! m = None \<and> makeMove u s = handleClick m s)
          \<and> (isBotTurn s \<longrightarrow>
                (\<exists>m. m < 9 \<and> b ! m = None \<and> botTimer u s = handleClick m s
                   \<and> squares (botTimer u s) = b[m := Some ''O'']))
          \<and> (\<forall>m \<in> botMoves s. m < 9 \<and> b ! m = None))"
proof -
  from random_move_is_empty_cell[OF assms] obtain m
    where m: "getRandomMove b u = Some m" "m < 9" "b ! m = None" by blast
  have any: "m' < 9 \<and> b ! m' = None" if "getRandomMove b v = Some m'" for v m'
  proof -
    from that have "m' \<in> set (emptyIndices b)"
      unfolding getRandomMove_def by (rule pickRandom_Some)
    then show ?thesis using assms(1) by (simp add: set_emptyIndices)
  qed
  have ne: "emptyIndices b \<noteq> []"
    using m(1) by (auto simp: getRandomMove_def pickRandom_def Let_def split: if_splits)
  have mk: "makeMove u s = handleClick m s" if "squares s = b"
    using that m(1) ne by (simp add: makeMove_def getRandomMove_def Let_def)
  have bt: "botTimer u s = handleClick m s \<and> squares (botTimer u s) = b[m := Some ''O'']"
    if "squares s = b" "isBotTurn s"
    using isBotTurn_submits(3,5)[OF that(2), of u m] m(1) that(1) by simp
  have bm: "\<forall>m \<in> botMoves s. m < 9 \<and> b ! m = None" if sb: "squares s = b"
  proof
    fix m' assume "m' \<in> botMoves s"
    then have "\<exists>v. getRandomMove (squares s) v = Some m'"
      unfolding botMoves_eq by blast
    then obtain v where "getRandomMove (squares s) v = Some m'" by (rule exE)
    then have "getRandomMove b v = Some m'" by (simp only: sb)
    then show "m' < 9 \<and> b ! m' = None" by (rule any)
  qed
  show ?thesis
  proof (intro conjI impI allI)
    show "\<exists>m. getRandomMove b u = Some m \<and> m < 9 \<and> b ! m = None"
      using m by blast
    show "m' < 9" if "getRandomMove b v = Some m'" for v m'
      using any[OF that] by (rule conjunct1)
    show "b ! m' = None" if "getRandomMove b v = Some m'" for v m'
      using any[OF that] by (rule conjunct2)
    show "\<exists>m. m < 9 \<and> b ! m = None \<and> makeMove u s = handleClick m s" if "squares s = b"
      using mk[OF that] m(2,3) by blast
    show "\<exists>m. m < 9 \<and> b ! m = None \<and> botTimer u s = handleClick m s
                   \<and> squares (botTimer u s) = b[m := Some ''O'']"
      if "squares s = b" "isBotTurn s"
      using bt[OF that] m(2,3) by blast
    show "\<forall>m \<in> botMoves s. m < 9 \<and> b ! m = None" if "squares s = b"
      by (rule bm[OF that])
  qed
qed

text \<open>
  The theorem at the bot's second move with six cells empty and
  \<^verbatim>\<open>0.8333333333333333\<close> for the random number: the rounded product is 5 and the bot
  takes the last empty cell, where the floor of the real product, 4, would select the
  one before it.
\<close>

theorem random_strategy_selects_empty_cells_witness:
  "length (squares botSecondMove) = 9 \<and> isRandomValue fiveSixths
   \<and> emptyIndices (squares botSecondMove) = [2, 3, 4, 6, 7, 8]
   \<and> \<lfloor>valueOf fiveSixths * 6\<rfloor> = 4
   \<and> getRandomMove (squares botSecondMove) fiveSixths = Some 8
   \<and> (\<exists>m. getRandomMove (squares botSecondMove) fiveSixths = Some m \<and> m < 9
          \<and> squares botSecondMove ! m = None)
   \<and> (\<exists>m. m < 9 \<and> squares botSecondMove ! m = None
          \<and> makeMove fiveSixths botSecondMove = handleClick m botSecondMove)
   \<and> isBotTurn botSecondMove
   \<and> (\<exists>m. m < 9 \<and> squares botSecondMove ! m = None
          \<and> botTimer fiveSixths botSecondMove = handleClick m botSecondMove
          \<and> squares (botTimer fiveSixths botSecondMove)
              = (squares botSecondMove)[m := Some ''O''])
   \<and> 0 \<notin> botMoves botSecondMove"
proof -
  have sq: "squares botSecondMove
      = [Some ''X'', Some ''X'', None, None, None, Some ''O'', None, None, None]"
    by code_simp
  have l: "length (squares botSecondMove) = 9" by (simp add: sq)
  have e: "\<exists>i<9. squares botSecondMove ! i = None"
    by (rule exI[of _ 2]) (simp add: sq)
  have t: "isBotTurn botSecondMove" by code_simp
  have x: "squares botSecondMove ! 0 \<noteq> None" by (simp add: sq)
  have u: "isRandomValue fiveSixths"
    by (simp add: isRandomValue_def isDouble_def belowOne_def fiveSixths_def)
  have ei: "emptyIndices (squares botSecondMove) = [2, 3, 4, 6, 7, 8]"
    unfolding sq by code_simp
  have v: "\<lfloor>valueOf fiveSixths * 6\<rfloor> = 4"
    by (simp add: valueOf_def fiveSixths_def powr_minus floor_eq_iff)
  have p: "pickRandom [2, 3, 4, 6, 7, 8] fiveSixths = Some 8"
    by (simp add: pickRandom_def timesLength_def mathFloor_def bitLength_numeral
        fiveSixths_def Let_def)
  have g: "getRandomMove (squares botSecondMove) fiveSixths = Some 8"
    by (simp only: getRandomMove_def ei p)
  note r = random_strategy_selects_empty_cells[OF l e u, of botSecondMove]
  from r have a: "\<exists>m. getRandomMove (squares botSecondMove) fiveSixths = Some m \<and> m < 9
      \<and> squares botSecondMove ! m = None" by (rule conjunct1)
  note r3 = r[THEN conjunct2, THEN conjunct2, THEN mp, OF refl]
  from r3 have b: "\<exists>m. m < 9 \<and> squares botSecondMove ! m = None
          \<and> makeMove fiveSixths botSecondMove = handleClick m botSecondMove"
    by (rule conjunct1)
  from r3[THEN conjunct2, THEN conjunct1, THEN mp, OF t]
  have c: "\<exists>m. m < 9 \<and> squares botSecondMove ! m = None
          \<and> botTimer fiveSixths botSecondMove = handleClick m botSecondMove
          \<and> squares (botTimer fiveSixths botSecondMove)
              = (squares botSecondMove)[m := Some ''O'']" .
  have d: "0 \<notin> botMoves botSecondMove"
  proof
    assume "0 \<in> botMoves botSecondMove"
    moreover from r3 have "\<forall>m \<in> botMoves botSecondMove. m < 9 \<and> squares botSecondMove ! m = None"
      by (intro conjunct2[OF conjunct2[OF r3]])
    ultimately have "0 < (9::nat) \<and> squares botSecondMove ! 0 = None" by (rule bspec[rotated])
    then have "squares botSecondMove ! 0 = None" by (rule conjunct2)
    with x show False by (rule notE)
  qed
  show ?thesis
    by (intro conjI l u ei v g a b t c d)
qed

text \<open>
  C10. Changing the difficulty resets the game in progress: the history becomes the
  single all-empty grid, the view index 0 and the turn X's; the difficulty takes the new
  value and mode, names and score tally are unchanged.
\<close>

theorem difficulty_change_resets:
  "history (cur (dispatch a (SetDifficulty d))) = [emptyBoard]
   \<and> step (cur (dispatch a (SetDifficulty d))) = 0
   \<and> xIsNext (cur (dispatch a (SetDifficulty d))) = True
   \<and> difficulty (cur (dispatch a (SetDifficulty d))) = d
   \<and> mode (cur (dispatch a (SetDifficulty d))) = mode (cur a)
   \<and> names (cur (dispatch a (SetDifficulty d))) = names (cur a)
   \<and> scores (cur (dispatch a (SetDifficulty d))) = scores (cur a)"
  by (simp add: dispatch_def commit_def Let_def scoreEffect_fresh
      handleDifficultyChange_def handleReset_def)

end
